theory Spec2Isabelle
  imports Main "HOL-Library.Word"
begin

unbundle bit_operations_syntax

section \<open>Data model\<close>

text \<open>
  The lock-free ring buffer of \<^verbatim>\<open>lockfree.go\<close>, with \<^verbatim>\<open>sequence.go\<close> and the
  helpers of \<^verbatim>\<open>buffer.go\<close>. A value of Go's \<^verbatim>\<open>int\<close> or \<^verbatim>\<open>int64\<close> is an integer
  from \<open>- 2^63\<close> up to \<open>2^63 - 1\<close>, and a sum or a difference of two of them is taken
  modulo \<open>2^64\<close> back into that range: \<open>wrap64\<close>, and \<open>wrap32\<close> for the 32-bit
  counter of buffers. \<^verbatim>\<open>Len\<close>, \<^verbatim>\<open>Commit\<close> and \<^verbatim>\<open>Read\<close> are written with
  \<open>wrap64\<close>. \<^verbatim>\<open>Peek\<close> and the producer's operations are written with the sums
  themselves, which are the sums of the code while the sequences, and the sequences with
  the counts added to them, stay below \<open>2^63\<close>. A byte is an 8-bit word; a slice is
  the list of its elements, and a slice expression out of range is the explicit outcome
  \<open>Panic\<close>.
\<close>

definition wrap64 :: "int \<Rightarrow> int" where
  "wrap64 x = (x + 2 ^ 63) mod 2 ^ 64 - 2 ^ 63"

definition wrap32 :: "int \<Rightarrow> int" where
  "wrap32 x = (x + 2 ^ 31) mod 2 ^ 32 - 2 ^ 31"

type_synonym byte = "8 word"

text \<open>
  The error values the package returns: the two of \<^verbatim>\<open>bufio\<close>, its own
  \<^verbatim>\<open>ErrBufferInsufficientData\<close>, \<^verbatim>\<open>io.EOF\<close>, the two messages the constructor
  formats (with the numbers it prints), and any other error of an external reader.
\<close>

datatype error =
    ErrNegativeCount
  | ErrBufferFull
  | ErrBufferInsufficientData
  | EOF
  | ErrNotPowerOfTwo int
  | ErrTooSmall int int
  | ErrSource nat

text \<open>
  A call either returns its results or panics (a slice bound out of range, an array that
  the runtime does not allocate).
\<close>

datatype 'a outcome = Return 'a | Panic

text \<open>
  \<^verbatim>\<open>sequence\<close>: the cursor and the gate; the six padding fields are never read or
  written and are left out.
\<close>

record sequence =
  cursor :: int
  gate :: int

definition newSequence :: sequence where
  "newSequence = \<lparr>cursor = 0, gate = 0\<rparr>"

definition get :: "sequence \<Rightarrow> int" where
  "get this = cursor this"

definition set_seq :: "sequence \<Rightarrow> int \<Rightarrow> sequence" where
  "set_seq this seq = this\<lparr>cursor := seq\<rparr>"

text \<open>
  \<^verbatim>\<open>LockFreeBuffer\<close>. The fields \<^verbatim>\<open>id\<close>, \<^verbatim>\<open>size\<close>, \<^verbatim>\<open>mask\<close> and \<^verbatim>\<open>done\<close> carry
  the suffix \<open>_lf\<close>, their names being taken in HOL. The two sequences are separate
  objects, so they are fields by value.
\<close>

record LockFreeBuffer =
  id_lf :: int
  buf :: "byte list"
  tmp :: "byte list"
  size_lf :: int
  mask_lf :: int
  done_lf :: int
  pseq :: sequence
  cseq :: sequence
  cwait :: int
  pwait :: int

definition defaultReadBlockSize :: int where
  "defaultReadBlockSize = 1024"

definition defaultWriteBlockSize :: int where
  "defaultWriteBlockSize = 2048"

definition defaultBufferSize :: int where
  "defaultBufferSize = 1024 * 1024"

subsection \<open>Slices and the built-in copy\<close>

text \<open>
  \<^verbatim>\<open>s[lo:hi]\<close> panics unless \<open>0 \<le> lo \<le> hi \<le> cap s\<close>; every slice the package cuts
  has its capacity equal to its length.
\<close>

definition in_bounds :: "int \<Rightarrow> int \<Rightarrow> 'a list \<Rightarrow> bool" where
  "in_bounds lo hi s \<longleftrightarrow> 0 \<le> lo \<and> lo \<le> hi \<and> hi \<le> int (length s)"

definition sub_slice :: "'a list \<Rightarrow> int \<Rightarrow> int \<Rightarrow> 'a list" where
  "sub_slice s lo hi = take (nat (hi - lo)) (drop (nat lo) s)"

text \<open>
  \<^verbatim>\<open>copy(dst, src)\<close> copies \<open>min (len dst) (len src)\<close> elements and returns that
  number; the model returns the new contents of \<open>dst\<close> with it.
\<close>

definition copy :: "'a list \<Rightarrow> 'a list \<Rightarrow> 'a list \<times> int" where
  "copy dst src =
     (let n = min (length dst) (length src)
      in (take n src @ drop n dst, int n))"

subsection \<open>The constructor\<close>

text \<open>
  Modelled from the spec: \<^verbatim>\<open>bithacks.PowerOfTwo64\<close> belongs to the imported package
  \<^verbatim>\<open>github.com/dataence/bithacks\<close>, which is not among the sources. The spec calls it
  the power-of-two utility, and says that the size must be a power of two: the test is
  whether a 64-bit integer is one of \<open>2^0\<close>, ..., \<open>2^62\<close>.
\<close>

definition powers64 :: "int list" where
  "powers64 = map (\<lambda>k. 2 ^ k) [0..<63]"

definition PowerOfTwo64 :: "int \<Rightarrow> bool" where
  "PowerOfTwo64 v \<longleftrightarrow> v \<in> set powers64"

text \<open>
  \<^verbatim>\<open>make([]byte, size)\<close> does not return when the runtime does not allocate the
  array: it panics for a size above the runtime's limit, \<open>2^48\<close> bytes on the 64-bit
  platforms, and the program stops when the memory is used up. Both are the outcome
  \<open>Panic\<close>; the size up to which the runtime allocates when the constructor is called
  is the constructor's parameter \<open>avail\<close>.
\<close>

definition maxAlloc :: int where
  "maxAlloc = 2 ^ 48"

text \<open>
  \<^verbatim>\<open>NewLockFreeBuffer\<close>. The other helper of the absent package,
  \<^verbatim>\<open>bithacks.RoundUpPowerOfTwo64\<close>, is the parameter \<open>roundUp\<close>: the constructor
  prints what it returns in the error and uses it for nothing else. \<open>bufcnt\<close> is the
  package's 32-bit counter of buffers before the call, which a call that reaches the
  allocation increments and takes as the buffer's id.
\<close>

definition NewLockFreeBuffer ::
  "(int \<Rightarrow> int) \<Rightarrow> int \<Rightarrow> int \<Rightarrow> int \<Rightarrow> (error + LockFreeBuffer) outcome" where
  "NewLockFreeBuffer roundUp avail bufcnt size0 =
     (if size0 < 0 then Return (Inl ErrNegativeCount)
      else
        let size = (if size0 = 0 then defaultBufferSize else size0) in
        if \<not> PowerOfTwo64 size then Return (Inl (ErrNotPowerOfTwo (roundUp size)))
        else if size < 2 * defaultReadBlockSize
          then Return (Inl (ErrTooSmall (2 * defaultReadBlockSize) (2 * defaultReadBlockSize)))
        else if size > avail then Panic
        else Return (Inr \<lparr>id_lf = wrap32 (bufcnt + 1),
                  buf = replicate (nat size) 0,
                  tmp = [],
                  size_lf = size,
                  mask_lf = size - 1,
                  done_lf = 0,
                  pseq = newSequence,
                  cseq = newSequence,
                  cwait = 0,
                  pwait = 0\<rparr>))"

subsection \<open>ID, Close, Len, Commit\<close>

definition ID :: "LockFreeBuffer \<Rightarrow> int" where
  "ID this = id_lf this"

definition Close :: "LockFreeBuffer \<Rightarrow> error option \<times> LockFreeBuffer" where
  "Close this = (None, this\<lparr>done_lf := 1\<rparr>)"

definition Len :: "LockFreeBuffer \<Rightarrow> int" where
  "Len this =
     (let cpos = get (cseq this);
          ppos = get (pseq this)
      in wrap64 (ppos - cpos))"

text \<open>\<^verbatim>\<open>Commit\<close> has no loop and cuts no slice: it always returns.\<close>

definition Commit :: "int \<Rightarrow> LockFreeBuffer \<Rightarrow> (int \<times> error option) \<times> LockFreeBuffer" where
  "Commit n this =
     (if n > size_lf this then ((0, Some ErrBufferFull), this)
      else if n < 0 then ((0, Some ErrNegativeCount), this)
      else
        let cpos = get (cseq this);
            ppos = get (pseq this)
        in if wrap64 (cpos + n) \<le> ppos
           then ((n, None), this\<lparr>cseq := set_seq (cseq this) (wrap64 (cpos + n))\<rparr>)
           else ((0, Some ErrBufferInsufficientData), this))"

subsection \<open>ringCopy\<close>

text \<open>
  The loop of \<^verbatim>\<open>ringCopy\<close>, with its variables \<open>start\<close>, \<open>i\<close> and \<open>n\<close> as
  arguments. An iteration that copies nothing into an empty destination repeats for
  ever: the loop is a partial function, and \<open>None\<close> is a call that does not return.
\<close>

partial_function (option) ringCopy_loop ::
  "byte list \<Rightarrow> byte list \<Rightarrow> int \<Rightarrow> int \<Rightarrow> int \<Rightarrow> (byte list \<times> int) outcome option" where
  "ringCopy_loop dst src start i n =
     (if n > 0 then
        (if \<not> in_bounds start (int (length dst)) dst \<or> \<not> in_bounds i (int (length src)) src
         then Some Panic
         else
           let (tail', l) = copy (drop (nat start) dst) (drop (nat i) src);
               dst' = take (nat start) dst @ tail';
               i' = i + l;
               n' = n - l
           in ringCopy_loop dst' src (if n' > 0 then 0 else start) i' n')
      else Some (Return (dst, i)))"

definition ringCopy :: "byte list \<Rightarrow> byte list \<Rightarrow> int \<Rightarrow> (byte list \<times> int) outcome option" where
  "ringCopy dst src start = ringCopy_loop dst src start 0 (int (length src))"

section \<open>Waiting\<close>

text \<open>
  The blocking operations spin: each iteration calls \<^verbatim>\<open>runtime.Gosched()\<close>, then loads
  \<^verbatim>\<open>done\<close> and the other side's sequence again. What the other side (and whoever
  closes the buffer) does in the meantime is a list of yields, one for each call of
  \<^verbatim>\<open>Gosched\<close>: a yield is the change of the shared buffer that the spinning side finds
  when it runs again. When the list is used up the other side stays idle: a loop whose
  condition still holds then reads the same values for ever, which is the value
  \<open>None\<close>, unless \<^verbatim>\<open>done\<close> is set.
\<close>

type_synonym yield = "LockFreeBuffer \<Rightarrow> LockFreeBuffer"

text \<open>
  The loop of \<^verbatim>\<open>waitForWriteSpace\<close>:
  \<^verbatim>\<open>for cpos = cseq.get(); wrap > cpos; cpos = cseq.get() { Gosched(); if done == 1 { return EOF } }\<close>.
  It returns the error (if any), the last \<open>cpos\<close>, the yields left and the buffer.
\<close>

fun producerWait ::
  "int \<Rightarrow> yield list \<Rightarrow> LockFreeBuffer \<Rightarrow> (error option \<times> int \<times> yield list \<times> LockFreeBuffer) option" where
  "producerWait wrap [] this =
     (let cpos = get (cseq this)
      in if wrap > cpos
         then (if done_lf this = 1 then Some (Some EOF, cpos, [], this) else None)
         else Some (None, cpos, [], this))"
| "producerWait wrap (y # ys) this =
     (let cpos = get (cseq this)
      in if wrap > cpos
         then (let this' = y this
               in if done_lf this' = 1 then Some (Some EOF, cpos, ys, this')
                  else producerWait wrap ys this')
         else Some (None, cpos, y # ys, this))"

text \<open>
  The loop of \<^verbatim>\<open>Read\<close> and \<^verbatim>\<open>Peek\<close>:
  \<^verbatim>\<open>for ppos = pseq.get(); cpos >= ppos; ppos = pseq.get() { Gosched(); if done == 1 { return EOF } }\<close>
  (\<^verbatim>\<open>Peek\<close> loads \<open>ppos\<close> just before the loop instead of in its first clause). After
  the loop \<open>ppos\<close> is the cursor of \<open>pseq\<close> in the buffer returned.
\<close>

fun consumerWait ::
  "int \<Rightarrow> yield list \<Rightarrow> LockFreeBuffer \<Rightarrow> (error option \<times> yield list \<times> LockFreeBuffer) option" where
  "consumerWait cpos [] this =
     (if cpos \<ge> get (pseq this)
      then (if done_lf this = 1 then Some (Some EOF, [], this) else None)
      else Some (None, [], this))"
| "consumerWait cpos (y # ys) this =
     (if cpos \<ge> get (pseq this)
      then (let this' = y this
            in if done_lf this' = 1 then Some (Some EOF, ys, this')
               else consumerWait cpos ys this')
      else Some (None, y # ys, this))"

text \<open>The buffer a spinning side finds after the first yields of a list.\<close>

definition after_yields :: "yield list \<Rightarrow> LockFreeBuffer \<Rightarrow> LockFreeBuffer" where
  "after_yields ys this = fold (\<lambda>y s. y s) ys this"

section \<open>The producer\<close>

text \<open>
  \<^verbatim>\<open>waitForWriteSpace\<close> returns \<open>(ppos, n, nil)\<close> or \<open>(0, 0, io.EOF)\<close>; the model
  returns the yields left and the buffer with them.
\<close>

definition waitForWriteSpace ::
  "int \<Rightarrow> yield list \<Rightarrow> LockFreeBuffer \<Rightarrow> ((int \<times> int \<times> error option) \<times> yield list \<times> LockFreeBuffer) option" where
  "waitForWriteSpace n ys this =
     (let ppos = get (pseq this);
          next = ppos + n;
          gate0 = gate (pseq this);
          wrap = next - size_lf this
      in
        if wrap > gate0 \<or> gate0 > ppos then
          (case producerWait wrap ys (this\<lparr>pwait := pwait this + 1\<rparr>) of
             None \<Rightarrow> None
           | Some (Some e, cpos, ys', this') \<Rightarrow> Some ((0, 0, Some e), ys', this')
           | Some (None, cpos, ys', this') \<Rightarrow>
               Some ((ppos, n, None), ys', this'\<lparr>pseq := (pseq this')\<lparr>gate := cpos\<rparr>\<rparr>))
        else Some ((ppos, n, None), ys, this))"

text \<open>
  \<^verbatim>\<open>Write\<close> copies \<open>p\<close> into the array with \<^verbatim>\<open>ringCopy\<close> and stores the new
  \<open>pseq\<close>; there is no check of \<open>len p\<close> before the wait.
\<close>

definition Write ::
  "byte list \<Rightarrow> yield list \<Rightarrow> LockFreeBuffer \<Rightarrow> ((int \<times> error option) \<times> LockFreeBuffer) outcome option" where
  "Write p ys this =
     (case waitForWriteSpace (int (length p)) ys this of
        None \<Rightarrow> None
      | Some ((start, cnt, Some e), ys', this') \<Rightarrow> Some (Return ((0, Some e), this'))
      | Some ((start, cnt, None), ys', this') \<Rightarrow>
          (case ringCopy (buf this') p (start AND mask_lf this') of
             None \<Rightarrow> None
           | Some Panic \<Rightarrow> Some Panic
           | Some (Return (buf', tot)) \<Rightarrow>
               Some (Return ((tot, None),
                 this'\<lparr>buf := buf', pseq := set_seq (pseq this') (start + int (length p))\<rparr>))))"

text \<open>
  An \<^verbatim>\<open>io.Reader\<close> is the list of what its calls of \<^verbatim>\<open>Read\<close> have to give: the
  bytes ready and the error returned with them. A call copies at most \<open>len p\<close> of the
  bytes (the rest of the chunk is dropped) and a reader with nothing left returns
  \<^verbatim>\<open>(0, io.EOF)\<close>.
\<close>

type_synonym reader = "(byte list \<times> error option) list"

definition reader_Read :: "reader \<Rightarrow> nat \<Rightarrow> (byte list \<times> error option) \<times> reader" where
  "reader_Read r c =
     (case r of
        [] \<Rightarrow> (([], Some EOF), [])
      | (d, e) # r' \<Rightarrow> ((take c d, e), r'))"

text \<open>
  \<^verbatim>\<open>ReadFrom\<close>: the loop, with its variable \<open>total\<close> as the argument \<open>tot\<close>. The
  reader writes its bytes into \<^verbatim>\<open>this.buf[pstart:pend]\<close>. The loop ends when the reader
  returns an error, which a reader does at the latest when it has nothing left.
\<close>

function ReadFrom_loop ::
  "int \<Rightarrow> reader \<Rightarrow> yield list \<Rightarrow> LockFreeBuffer \<Rightarrow> ((int \<times> error option) \<times> LockFreeBuffer) outcome option" where
  "ReadFrom_loop tot r ys this =
     (case waitForWriteSpace defaultReadBlockSize ys this of
        None \<Rightarrow> None
      | Some ((start, cnt, Some e), ys', this') \<Rightarrow> Some (Return ((0, Some e), this'))
      | Some ((start, cnt, None), ys', this') \<Rightarrow>
          (let pstart = start AND mask_lf this';
               pend0 = pstart + cnt;
               pend = (if pend0 > int (length (buf this')) then int (length (buf this')) else pend0)
           in
             if \<not> in_bounds pstart pend (buf this') then Some Panic
             else
               (case reader_Read r (nat (pend - pstart)) of
                  ((d, err), r') \<Rightarrow>
                    (let n = int (length d);
                         this'' = (if n > 0
                           then this'\<lparr>buf := take (nat pstart) (buf this') @ d @ drop (nat pstart + length d) (buf this'),
                                      pseq := set_seq (pseq this') (start + n)\<rparr>
                           else this');
                         tot' = (if n > 0 then tot + n else tot)
                     in (case err of
                           Some e \<Rightarrow> Some (Return ((tot', Some e), this''))
                         | None \<Rightarrow> ReadFrom_loop tot' r' ys' this'')))))"
  by pat_completeness auto
termination
  by (relation "measure (\<lambda>(tot, r, ys, this). length r)")
     (auto simp: reader_Read_def split: list.splits)

declare ReadFrom_loop.simps [simp del]

definition ReadFrom ::
  "reader \<Rightarrow> yield list \<Rightarrow> LockFreeBuffer \<Rightarrow> ((int \<times> error option) \<times> LockFreeBuffer) outcome option" where
  "ReadFrom r ys this = ReadFrom_loop 0 r ys this"

section \<open>The consumer\<close>

text \<open>
  \<^verbatim>\<open>Read\<close> returns the count, the error and the new contents of \<open>p\<close>. Its outer
  loop starts again after a wait that ends with data; each such wait has used a yield.
\<close>

function Read ::
  "byte list \<Rightarrow> yield list \<Rightarrow> LockFreeBuffer \<Rightarrow> ((int \<times> error option) \<times> byte list \<times> LockFreeBuffer) outcome option" where
  "Read p ys this =
     (let pl = int (length p);
          cpos = get (cseq this);
          ppos = get (pseq this);
          cindex = cpos AND mask_lf this;
          len = int (length (buf this))
      in
        if wrap64 (cpos + pl) < ppos then
          (if \<not> in_bounds cindex len (buf this) then Some Panic
           else
             (case copy p (sub_slice (buf this) cindex len) of
                (p', n) \<Rightarrow>
                  Some (Return ((n, None), p', this\<lparr>cseq := set_seq (cseq this) (wrap64 (cpos + n))\<rparr>))))
        else if cpos < ppos then
          (let b = wrap64 (ppos - cpos)
           in
             if wrap64 (cindex + b) < size_lf this then
               (if \<not> in_bounds cindex (wrap64 (cindex + b)) (buf this) then Some Panic
                else
                  (case copy p (sub_slice (buf this) cindex (wrap64 (cindex + b))) of
                     (p', n) \<Rightarrow>
                       Some (Return ((n, None), p', this\<lparr>cseq := set_seq (cseq this) (wrap64 (cpos + n))\<rparr>))))
             else
               (if \<not> in_bounds cindex len (buf this) then Some Panic
                else
                  (case copy p (sub_slice (buf this) cindex len) of
                     (p', n) \<Rightarrow>
                       Some (Return ((n, None), p', this\<lparr>cseq := set_seq (cseq this) (wrap64 (cpos + n))\<rparr>)))))
        else
          (case consumerWait cpos ys (this\<lparr>cwait := wrap64 (cwait this + 1)\<rparr>) of
             None \<Rightarrow> None
           | Some (Some e, ys', this') \<Rightarrow> Some (Return ((0, Some e), p, this'))
           | Some (None, ys', this') \<Rightarrow> Read p ys' this'))"
  by pat_completeness auto
termination
proof (relation "measure (\<lambda>(p, ys, this). length ys)")
  show "wf (measure (\<lambda>(p, ys, this). length ys))"
    by simp
next
  fix p :: "byte list" and ys :: "yield list" and this :: LockFreeBuffer
    and pl cpos ppos cindex len :: int and x2 x y xa ya
  assume cpos: "cpos = get (cseq this)" and ppos: "ppos = get (pseq this)"
    and blocked: "\<not> cpos < ppos"
    and waited: "consumerWait cpos ys (this\<lparr>cwait := wrap64 (cwait this + 1)\<rparr>) = Some x2"
      "(x, y) = x2" "(xa, ya) = y" "x = None"
  have le: "length zs' \<le> length zs"
    if "consumerWait c zs s = Some (e, zs', s')" for c e zs zs' s s'
    using that
    by (induction zs arbitrary: s) (auto simp: Let_def le_SucI split: if_splits)
  have shorter: "length zs' < length zs"
    if "consumerWait c zs s = Some (None, zs', s')" and "get (pseq s) \<le> c"
    for c zs zs' s s'
  proof (cases zs)
    case Nil
    with that show ?thesis by (simp split: if_splits)
  next
    case (Cons z zs0)
    with that have "consumerWait c zs0 (z s) = Some (None, zs', s')"
      by (simp add: Let_def split: if_splits)
    then have "length zs' \<le> length zs0"
      by (rule le)
    with Cons show ?thesis by simp
  qed
  from waited have "consumerWait cpos ys (this\<lparr>cwait := wrap64 (cwait this + 1)\<rparr>) = Some (None, xa, ya)"
    by simp
  moreover from blocked ppos have "get (pseq (this\<lparr>cwait := wrap64 (cwait this + 1)\<rparr>)) \<le> cpos"
    by simp
  ultimately have "length xa < length ys"
    by (rule shorter)
  then show "((p, xa, ya), (p, ys, this)) \<in> measure (\<lambda>(p, ys, this). length ys)"
    by simp
qed

declare Read.simps [simp del]

text \<open>
  \<^verbatim>\<open>Peek\<close> returns the slice it hands out (as the bytes in it) and the error; the
  nil slice is the empty list.
\<close>

definition Peek ::
  "int \<Rightarrow> yield list \<Rightarrow> LockFreeBuffer \<Rightarrow> ((byte list \<times> error option) \<times> LockFreeBuffer) outcome option" where
  "Peek n ys this =
     (if n > size_lf this then Some (Return (([], Some ErrBufferFull), this))
      else if n < 0 then Some (Return (([], Some ErrNegativeCount), this))
      else
        let cpos = get (cseq this)
        in
          (case consumerWait cpos ys this of
             None \<Rightarrow> None
           | Some (Some e, ys', this') \<Rightarrow> Some (Return (([], Some e), this'))
           | Some (None, ys', this') \<Rightarrow>
               (let ppos = get (pseq this');
                    m0 = ppos - cpos;
                    m = (if m0 \<ge> n then n else m0);
                    err = (if m0 \<ge> n then None else Some ErrBufferInsufficientData);
                    len = int (length (buf this'))
                in
                  if cpos + m \<le> ppos then
                    (let cindex = cpos AND mask_lf this'
                     in
                       if cindex + m > size_lf this' then
                         (if \<not> in_bounds cindex len (buf this') then Some Panic
                          else
                            let l = int (length (sub_slice (buf this') cindex len));
                                tmp1 = [] @ sub_slice (buf this') cindex len
                            in
                              if \<not> in_bounds 0 (m - l) (buf this') then Some Panic
                              else
                                let tmp2 = tmp1 @ sub_slice (buf this') 0 (m - l)
                                in Some (Return ((tmp2, err), this'\<lparr>tmp := tmp2\<rparr>)))
                       else
                         (if \<not> in_bounds cindex (cindex + m) (buf this') then Some Panic
                          else Some (Return ((sub_slice (buf this') cindex (cindex + m), err), this'))))
                  else Some (Return (([], Some ErrBufferInsufficientData), this')))))"

section \<open>States of the buffer\<close>

text \<open>
  What the constructor establishes and no operation changes: the size is a power of two,
  the mask is the size less one, and the array has the size's length.
\<close>

definition well_formed :: "LockFreeBuffer \<Rightarrow> bool" where
  "well_formed this \<longleftrightarrow>
     PowerOfTwo64 (size_lf this) \<and>
     mask_lf this = size_lf this - 1 \<and>
     int (length (buf this)) = size_lf this"

text \<open>
  The sequence invariant \<open>cseq \<le> pseq \<le> cseq + size\<close>, with what keeps it: the
  producer's gate is a consumer position of the past, and the sequences are counts of
  bytes that an \<^verbatim>\<open>int64\<close> holds.
\<close>

definition ring_inv :: "LockFreeBuffer \<Rightarrow> bool" where
  "ring_inv this \<longleftrightarrow>
     well_formed this \<and>
     get (cseq this) \<le> get (pseq this) \<and>
     get (pseq this) \<le> get (cseq this) + size_lf this \<and>
     gate (pseq this) \<le> get (cseq this) \<and>
     0 \<le> get (cseq this) \<and>
     get (pseq this) < 2 ^ 63"

text \<open>
  The single-producer, single-consumer discipline, as conditions on the yields. While
  the producer waits, the other side is the consumer: it keeps the invariant and leaves
  the producer's sequence and the size alone. While the consumer waits, the other side
  is the producer, which leaves the consumer's sequence and the size alone.
\<close>

definition consumer_side :: "yield \<Rightarrow> bool" where
  "consumer_side y \<longleftrightarrow>
     (\<forall>s. ring_inv s \<longrightarrow> ring_inv (y s) \<and> pseq (y s) = pseq s \<and> size_lf (y s) = size_lf s)"

definition producer_side :: "yield \<Rightarrow> bool" where
  "producer_side y \<longleftrightarrow>
     (\<forall>s. ring_inv s \<longrightarrow> ring_inv (y s) \<and> cseq (y s) = cseq s \<and> size_lf (y s) = size_lf s)"

text \<open>The bytes an external reader still holds.\<close>

definition reader_bytes :: "reader \<Rightarrow> nat" where
  "reader_bytes r = sum_list (map (\<lambda>(d, e). length d) r)"

text \<open>
  The operations as steps of the other side: a call that returns, made while the sum it
  forms of a sequence and its argument is below \<open>2^63\<close>.
\<close>

definition Commit_step :: "int \<Rightarrow> yield" where
  "Commit_step n s = (if get (cseq s) + n < 2 ^ 63 then snd (Commit n s) else s)"

definition Read_step :: "byte list \<Rightarrow> yield" where
  "Read_step p s =
     (if get (cseq s) + int (length p) < 2 ^ 63
      then (case Read p [] s of Some (Return (res, p', s')) \<Rightarrow> s' | _ \<Rightarrow> s)
      else s)"

definition Peek_step :: "int \<Rightarrow> yield" where
  "Peek_step n s = (case Peek n [] s of Some (Return (res, s')) \<Rightarrow> s' | _ \<Rightarrow> s)"

definition Write_step :: "byte list \<Rightarrow> yield" where
  "Write_step p s =
     (if get (pseq s) + int (length p) < 2 ^ 63
      then (case Write p [] s of Some (Return (res, s')) \<Rightarrow> s' | _ \<Rightarrow> s)
      else s)"

definition ReadFrom_step :: "reader \<Rightarrow> yield" where
  "ReadFrom_step r s =
     (if get (pseq s) + int (reader_bytes r) + defaultReadBlockSize < 2 ^ 63
      then (case ReadFrom r [] s of Some (Return (res, s')) \<Rightarrow> s' | _ \<Rightarrow> s)
      else s)"

text \<open>
  The states a buffer can be in before a sequence overflows: the ones the constructor
  returns, and the ones in which a call of an operation on such a state returns, as long
  as the sum that the call forms of a sequence and its argument stays below \<open>2^63\<close>.
  That sum is \<open>cseq + n\<close> in \<^verbatim>\<open>Commit\<close>, \<open>cseq + |p|\<close> in \<^verbatim>\<open>Read\<close>, \<open>pseq + |p|\<close> in
  \<^verbatim>\<open>Write\<close>, and in \<^verbatim>\<open>ReadFrom\<close> at most \<open>pseq\<close> and the bytes of the reader and
  one block.
\<close>

inductive reachable :: "LockFreeBuffer \<Rightarrow> bool" where
  after_New: "NewLockFreeBuffer roundUp avail bufcnt size0 = Return (Inr this) \<Longrightarrow> reachable this"
| after_Close: "reachable this \<Longrightarrow> Close this = (err, this') \<Longrightarrow> reachable this'"
| after_Commit: "reachable this \<Longrightarrow> get (cseq this) + n < 2 ^ 63 \<Longrightarrow>
     Commit n this = (res, this') \<Longrightarrow> reachable this'"
| after_Peek: "reachable this \<Longrightarrow> \<forall>y \<in> set ys. producer_side y \<Longrightarrow>
     Peek n ys this = Some (Return (res, this')) \<Longrightarrow> reachable this'"
| after_Read: "reachable this \<Longrightarrow> \<forall>y \<in> set ys. producer_side y \<Longrightarrow>
     get (cseq this) + int (length p) < 2 ^ 63 \<Longrightarrow>
     Read p ys this = Some (Return (res, p', this')) \<Longrightarrow> reachable this'"
| after_Write: "reachable this \<Longrightarrow> \<forall>y \<in> set ys. consumer_side y \<Longrightarrow>
     get (pseq this) + int (length p) < 2 ^ 63 \<Longrightarrow>
     Write p ys this = Some (Return (res, this')) \<Longrightarrow> reachable this'"
| after_ReadFrom: "reachable this \<Longrightarrow> \<forall>y \<in> set ys. consumer_side y \<Longrightarrow>
     get (pseq this) + int (reader_bytes r) + defaultReadBlockSize < 2 ^ 63 \<Longrightarrow>
     ReadFrom r ys this = Some (Return (res, this')) \<Longrightarrow> reachable this'"

section \<open>A buffer of the tests\<close>

text \<open>
  The buffer that \<^verbatim>\<open>fillLockFreeBuffer(t, 2048, 4096)\<close> of the tests builds: a ring of
  4096 bytes into which \<^verbatim>\<open>ReadFrom\<close> has put 2048 bytes \<^verbatim>\<open>'a'\<close>.
\<close>

definition filled_ring :: LockFreeBuffer where
  "filled_ring =
     \<lparr>id_lf = 1,
      buf = replicate 2048 97 @ replicate 2048 0,
      tmp = [],
      size_lf = 4096,
      mask_lf = 4095,
      done_lf = 0,
      pseq = \<lparr>cursor = 2048, gate = 0\<rparr>,
      cseq = \<lparr>cursor = 0, gate = 0\<rparr>,
      cwait = 0,
      pwait = 0\<rparr>"

text \<open>The same ring as the constructor returns it, before the fill.\<close>

definition fresh_ring :: LockFreeBuffer where
  "fresh_ring = filled_ring\<lparr>buf := replicate 4096 0, pseq := \<lparr>cursor = 0, gate = 0\<rparr>\<rparr>"

text \<open>
  The filled ring after a \<^verbatim>\<open>Write\<close> of 3072 bytes \<^verbatim>\<open>'b'\<close> that has waited for the
  consumer to commit 1024 bytes: the ring is full.
\<close>

definition full_ring :: LockFreeBuffer where
  "full_ring =
     filled_ring\<lparr>buf := replicate 1024 98 @ replicate 1024 97 @ replicate 2048 98,
       pseq := \<lparr>cursor = 5120, gate = 1024\<rparr>,
       cseq := \<lparr>cursor = 1024, gate = 0\<rparr>,
       pwait := 1\<rparr>"

section \<open>A buffer at the end of the range of an \<^verbatim>\<open>int64\<close>\<close>

text \<open>
  The ring of 4096 bytes after \<open>j\<close> rounds, \<open>j \<ge> 1\<close>, of a \<^verbatim>\<open>Write\<close> of 4096 bytes 0
  and a \<^verbatim>\<open>Commit(4096)\<close>: it is empty, and \<open>4096 * j\<close> bytes have passed through it.
\<close>

definition round_ring :: "int \<Rightarrow> LockFreeBuffer" where
  "round_ring j =
     fresh_ring\<lparr>pseq := \<lparr>cursor = 4096 * j, gate = 4096 * (j - 1)\<rparr>,
       cseq := \<lparr>cursor = 4096 * j, gate = 0\<rparr>,
       pwait := j - 1\<rparr>"

text \<open>
  After \<open>2^51 - 1\<close> rounds and a \<^verbatim>\<open>Write\<close> of 4095 bytes \<open>pseq\<close> is \<open>2^63 - 1\<close>; after a
  \<^verbatim>\<open>Commit(4093)\<close> the ring holds its last 2 bytes.
\<close>

definition last_ring :: LockFreeBuffer where
  "last_ring =
     fresh_ring\<lparr>pseq := \<lparr>cursor = 2 ^ 63 - 1, gate = 2 ^ 63 - 4096\<rparr>,
       cseq := \<lparr>cursor = 2 ^ 63 - 4096, gate = 0\<rparr>,
       pwait := 2 ^ 51 - 1\<rparr>"

definition brim_ring :: LockFreeBuffer where
  "brim_ring = last_ring\<lparr>cseq := \<lparr>cursor = 2 ^ 63 - 3, gate = 0\<rparr>\<rparr>"

text \<open>
  The same ring with \<open>pseq\<close> at \<open>2^63 - 3\<close>, after a \<^verbatim>\<open>Write\<close> of 4093 bytes instead
  and a \<^verbatim>\<open>Commit(4090)\<close>: it holds 3 bytes.
\<close>

definition tail_ring :: LockFreeBuffer where
  "tail_ring =
     last_ring\<lparr>pseq := \<lparr>cursor = 2 ^ 63 - 3, gate = 2 ^ 63 - 4096\<rparr>,
       cseq := \<lparr>cursor = 2 ^ 63 - 6, gate = 0\<rparr>\<rparr>"

section \<open>The helper \<^verbatim>\<open>ringCopy\<close>\<close>

lemma ringCopy_loop_done:
  "n \<le> 0 \<Longrightarrow> ringCopy_loop dst src start i n = Some (Return (dst, i))"
  by (subst ringCopy_loop.simps) simp

lemma ringCopy_explicit:
  assumes len: "length src \<le> length dst" and lo: "0 \<le> start" and hi: "start \<le> int (length dst)"
  shows "ringCopy dst src start =
    Some (Return
      (if length src \<le> length dst - nat start
       then take (nat start) dst @ src @ drop (nat start + length src) dst
       else drop (length dst - nat start) src @
            drop (length src - (length dst - nat start)) (take (nat start) dst @ take (length dst - nat start) src),
       int (length src)))"
proof (cases "src = []")
  case True
  then show ?thesis
    by (simp add: ringCopy_def ringCopy_loop_done)
next
  case False
  define s where "s = nat start"
  define h where "h = length dst - s"
  have s: "s \<le> length dst" "start = int s"
    using lo hi by (simp_all add: s_def)
  show ?thesis
  proof (cases "length src \<le> h")
    case True
    have "ringCopy dst src start =
      ringCopy_loop (take s dst @ src @ drop (s + length src) dst) src start (int (length src)) 0"
      unfolding ringCopy_def
      using False True s
      by (subst ringCopy_loop.simps)
         (simp add: in_bounds_def copy_def Let_def h_def min_def add.commute)
    then have "ringCopy dst src start =
      Some (Return (take s dst @ src @ drop (s + length src) dst, int (length src)))"
      by (simp only: ringCopy_loop_done [OF order_refl])
    with True show ?thesis
      unfolding h_def s_def by simp
  next
    case wrap: False
    have hs: "int (length dst) - int s = int h" "length dst - s = h" "h < length src"
      "h \<le> length src" "length (take s dst) = s" "s + h = length dst" "min (length dst) s = s"
      using wrap s by (simp_all add: h_def)
    have one: "ringCopy dst src start =
      ringCopy_loop (take s dst @ take h src) src 0 (int h) (int (length src) - int h)"
      unfolding ringCopy_def
      using False s hs
      by (subst ringCopy_loop.simps)
         (simp add: in_bounds_def copy_def Let_def min_def)
    have m: "min (s + h) (length src - h) = length src - h" "min (length src) h = h"
      "int (length src - h) = int (length src) - int h"
      using len hs by simp_all
    have two: "ringCopy_loop (take s dst @ take h src) src 0 (int h) (int (length src) - int h) =
      ringCopy_loop (drop h src @ drop (length src - h) (take s dst @ take h src)) src 0
        (int (length src)) 0"
      using hs(3,4,5)
      by (subst ringCopy_loop.simps)
         (simp add: in_bounds_def copy_def Let_def m del: drop_append)
    have "ringCopy dst src start =
      Some (Return (drop h src @ drop (length src - h) (take s dst @ take h src), int (length src)))"
      by (simp only: one two ringCopy_loop_done [OF order_refl])
    with wrap show ?thesis
      unfolding h_def s_def by (simp del: drop_append)
  qed
qed

text \<open>
  C9: for \<open>dst\<close> and \<open>src\<close> with \<open>|src| \<le> |dst|\<close> and \<open>start\<close> in \<open>[0, |dst|]\<close>,
  \<^verbatim>\<open>ringCopy\<close> returns (it neither loops for ever nor panics), the count returned is
  \<open>|src|\<close>, byte \<open>k\<close> of \<open>src\<close> is at index \<open>(start + k) mod |dst|\<close> of the new \<open>dst\<close>,
  which is the wrap to \<open>dst[0]\<close> behind the last index, and every other byte of \<open>dst\<close>
  is as it was.
\<close>

theorem ringCopy_wraps:
  assumes len: "length src \<le> length dst" and lo: "0 \<le> start" and hi: "start \<le> int (length dst)"
  shows "\<exists>dst'. ringCopy dst src start = Some (Return (dst', int (length src))) \<and>
    length dst' = length dst \<and>
    (\<forall>k<length src. dst' ! ((nat start + k) mod length dst) = src ! k) \<and>
    (\<forall>j<length dst. (\<forall>k<length src. (nat start + k) mod length dst \<noteq> j) \<longrightarrow> dst' ! j = dst ! j)"
proof -
  define s where "s = nat start"
  define h where "h = length dst - s"
  define L where "L = length dst"
  have s: "s \<le> L" "s + h = L"
    using lo hi by (simp_all add: s_def h_def L_def)
  show ?thesis
  proof (cases "length src \<le> h")
    case True
    define d where "d = take s dst @ src @ drop (s + length src) dst"
    have r: "ringCopy dst src start = Some (Return (d, int (length src)))"
      using ringCopy_explicit [OF len lo hi] True by (simp add: d_def s_def h_def)
    have l: "length d = length dst"
      using True s by (simp add: d_def L_def)
    have w: "d ! ((s + k) mod length dst) = src ! k" if "k < length src" for k
    proof -
      have "s + k < L" using that True s by simp
      then have "(s + k) mod length dst = s + k" by (simp add: L_def)
      moreover have "d ! (s + k) = src ! k"
        using that s by (simp add: d_def nth_append L_def)
      ultimately show ?thesis by simp
    qed
    have u: "d ! j = dst ! j" if "j < length dst" and "\<forall>k<length src. (s + k) mod length dst \<noteq> j" for j
    proof -
      have out: "j < s \<or> s + length src \<le> j"
      proof (rule ccontr)
        assume "\<not> ?thesis"
        then have k: "j - s < length src" "s + (j - s) = j" by linarith+
        with that(1) have "(s + (j - s)) mod length dst = j" by simp
        with that(2) k(1) show False by blast
      qed
      then show ?thesis
      proof
        assume "j < s"
        then show ?thesis using s by (simp add: d_def nth_append L_def)
      next
        assume "s + length src \<le> j"
        then show ?thesis using s that(1) by (auto simp add: d_def nth_append L_def)
      qed
    qed
    from r l w u show ?thesis
      unfolding s_def by blast
  next
    case False
    define c where "c = length src - h"
    define A where "A = drop h src"
    define B where "B = drop c (take s dst)"
    define C where "C = take h src"
    define d where "d = A @ B @ C"
    have c: "c \<le> s" "h + c = length src" "0 < c"
      using False len s by (simp_all add: c_def L_def)
    have lens: "length A = c" "length B = s - c" "length C = h"
      using c s by (simp_all add: A_def B_def C_def L_def)
    have nths: "\<And>i. i < c \<Longrightarrow> A ! i = src ! (h + i)"
      "\<And>i. i < s - c \<Longrightarrow> B ! i = dst ! (c + i)"
      "\<And>i. i < h \<Longrightarrow> C ! i = src ! i"
      using c s by (simp_all add: A_def B_def C_def L_def)
    have r: "ringCopy dst src start = Some (Return (d, int (length src)))"
      using ringCopy_explicit [OF len lo hi] False c s
      by (simp add: d_def A_def B_def C_def s_def h_def c_def L_def)
    have l: "length d = length dst"
      using c s lens by (simp add: d_def L_def)
    have w: "d ! ((s + k) mod length dst) = src ! k" if "k < length src" for k
    proof (cases "k < h")
      case True
      then have "s + k < L" using s by simp
      then have "(s + k) mod length dst = s + k" by (simp add: L_def)
      moreover have "\<not> s + k < c" "\<not> s + k - c < s - c" "s + k - c - (s - c) = k"
        using c by linarith+
      then have "d ! (s + k) = C ! k"
        by (simp add: d_def nth_append lens)
      ultimately show ?thesis using True by (simp add: nths)
    next
      case kh: False
      then have "L \<le> s + k" "s + k - L = k - h" "k - h < L"
        using s c that by linarith+
      then have "(s + k) mod length dst = k - h"
        by (simp add: L_def [symmetric] le_mod_geq)
      moreover have "k - h < c" "h + (k - h) = k"
        using kh c that by linarith+
      then have "d ! (k - h) = src ! k"
        by (simp add: d_def nth_append lens nths)
      ultimately show ?thesis by simp
    qed
    have u: "d ! j = dst ! j" if "j < length dst" and "\<forall>k<length src. (s + k) mod length dst \<noteq> j" for j
    proof -
      have "c \<le> j"
      proof (rule ccontr)
        assume "\<not> ?thesis"
        then have "h + j < length src" "L \<le> s + (h + j)" "s + (h + j) - L = j" "j < L"
          using c s that(1) by (simp_all add: L_def)
        then have "h + j < length src" "(s + (h + j)) mod length dst = j"
          by (simp_all add: L_def [symmetric] le_mod_geq)
        with that(2) show False by blast
      qed
      moreover have "j < s"
      proof (rule ccontr)
        assume "\<not> ?thesis"
        then have "j - s < length src" "s + (j - s) = j"
          using c s that(1) by (simp_all add: L_def)
        then have "j - s < length src" "(s + (j - s)) mod length dst = j"
          using that(1) by simp_all
        with that(2) show False by blast
      qed
      ultimately have "\<not> j < c" "j - c < s - c" "c + (j - c) = j"
        by linarith+
      then show ?thesis
        by (simp add: d_def nth_append lens nths)
    qed
    from r l w u show ?thesis
      unfolding s_def by blast
  qed
qed

text \<open>
  The premises hold for a copy of three bytes to index 2 of a four-byte array, and the
  theorem determines the result: the third byte wraps to index 0.
\<close>

theorem ringCopy_wraps_witness:
  "ringCopy [1, 2, 3, 4] [7, 8, 9] 2 = Some (Return ([9, 2, 7, 8], 3))"
proof -
  have "length [7, 8, 9 :: byte] \<le> length [1, 2, 3, 4 :: byte]" "0 \<le> (2 :: int)"
    "(2 :: int) \<le> int (length [1, 2, 3, 4 :: byte])"
    by simp_all
  from ringCopy_wraps [OF this] obtain d
    where r: "ringCopy [1, 2, 3, 4] [7, 8, 9] 2 = Some (Return (d, 3))"
      and l: "length d = 4"
      and w: "\<And>k. k < 3 \<Longrightarrow> d ! ((2 + k) mod 4) = [7, 8, 9] ! k"
      and u: "\<And>j. j < 4 \<Longrightarrow> (\<forall>k<3. (2 + k) mod 4 \<noteq> j) \<Longrightarrow> d ! j = [1, 2, 3, 4] ! j"
    by auto
  have v: "d ! 2 = 7" "d ! 3 = 8" "d ! 0 = 9"
    using w [of 0] w [of 1] w [of 2] by simp_all
  have "\<forall>k<3::nat. (2 + k) mod 4 \<noteq> 1"
    by presburger
  then have v1: "d ! 1 = 2"
    using u [of 1] by simp
  have "d = [9, 2, 7, 8]"
  proof (rule nth_equalityI)
    show "length d = length [9, 2, 7, 8 :: byte]"
      using l by simp
  next
    fix i
    assume "i < length d"
    with l have "i = 0 \<or> i = 1 \<or> i = 2 \<or> i = 3"
      by presburger
    with v v1 show "d ! i = [9, 2, 7, 8] ! i"
      by auto
  qed
  with r show ?thesis by simp
qed

section \<open>Sums within the range of an \<^verbatim>\<open>int64\<close>\<close>

lemma wrap64_id: "- (2 ^ 63) \<le> x \<Longrightarrow> x < 2 ^ 63 \<Longrightarrow> wrap64 x = x"
  by (simp add: wrap64_def)

lemma wrap64_nonneg: "0 \<le> x \<Longrightarrow> x < 2 ^ 63 \<Longrightarrow> wrap64 x = x"
  by (simp add: wrap64_id)

section \<open>Commit\<close>

text \<open>
  C2, amended: for \<open>0 \<le> n \<le> size\<close> and a state whose \<open>cseq\<close>, an \<^verbatim>\<open>int64\<close>, has
  \<open>cseq + n\<close> below \<open>2^63\<close>, \<^verbatim>\<open>Commit(n)\<close> is all or nothing. If \<open>n \<le> pseq - cseq\<close> it
  returns \<open>(n, nil)\<close> and the only change of the buffer is that the cursor of \<open>cseq\<close>
  has advanced by \<open>n\<close>; otherwise it returns \<open>(0, ErrBufferInsufficientData)\<close> and the
  buffer is as it was. It never blocks: \<open>Commit\<close> is a total function with no wait in
  it, whose value is the pair returned.
\<close>

theorem Commit_all_or_nothing:
  assumes "0 \<le> n" and "n \<le> size_lf this"
    and "- (2 ^ 63) \<le> get (cseq this)" and "get (cseq this) + n < 2 ^ 63"
  shows "(n \<le> get (pseq this) - get (cseq this) \<longrightarrow>
           Commit n this = ((n, None), this\<lparr>cseq := (cseq this)\<lparr>cursor := get (cseq this) + n\<rparr>\<rparr>)) \<and>
         (get (pseq this) - get (cseq this) < n \<longrightarrow>
           Commit n this = ((0, Some ErrBufferInsufficientData), this))"
proof -
  from assms have "wrap64 (get (cseq this) + n) = get (cseq this) + n"
    by (simp add: wrap64_id)
  with assms show ?thesis
    by (auto simp: Commit_def Let_def set_seq_def)
qed

text \<open>
  The fixture of the tests, a ring of 4096 bytes holding 2048: \<^verbatim>\<open>Commit(256)\<close> advances
  by 256, and \<^verbatim>\<open>Commit(2048)\<close> on the 1792 bytes left advances nothing.
\<close>

theorem Commit_all_or_nothing_witness:
  "(0::int) \<le> 256 \<and> 256 \<le> size_lf filled_ring \<and> - (2 ^ 63) \<le> get (cseq filled_ring) \<and>
   get (cseq filled_ring) + 256 < 2 ^ 63 \<and>
   Commit 256 filled_ring = ((256, None), filled_ring\<lparr>cseq := \<lparr>cursor = 256, gate = 0\<rparr>\<rparr>) \<and>
   Commit 2048 (filled_ring\<lparr>cseq := \<lparr>cursor = 256, gate = 0\<rparr>\<rparr>) =
     ((0, Some ErrBufferInsufficientData), filled_ring\<lparr>cseq := \<lparr>cursor = 256, gate = 0\<rparr>\<rparr>)"
  using Commit_all_or_nothing [of 256 filled_ring]
    Commit_all_or_nothing [of 2048 "filled_ring\<lparr>cseq := \<lparr>cursor = 256, gate = 0\<rparr>\<rparr>"]
  by (simp add: filled_ring_def get_def)

text \<open>
  C2 as stated fails where the sum \<open>cseq + n\<close> leaves the range of an \<^verbatim>\<open>int64\<close>. With
  \<open>cseq = 2^63 - 3\<close> and \<open>pseq = 2^63 - 1\<close> the ring holds 2 bytes; \<^verbatim>\<open>Commit(5)\<close>
  computes \<open>cseq + 5\<close> as \<open>- 2^63 + 2\<close>, finds it below \<open>pseq\<close>, returns \<open>(5, nil)\<close> and
  stores it in \<open>cseq\<close>. (The ring is in this state after \<open>2^63 - 1\<close> bytes have
  passed through it: \<open>reachable_brim_ring\<close> below.)
\<close>

theorem Commit_beyond_int64:
  "(5::int) \<le> size_lf brim_ring \<and>
   get (pseq brim_ring) - get (cseq brim_ring) = 2 \<and>
   Commit 5 brim_ring = ((5, None), brim_ring\<lparr>cseq := \<lparr>cursor = - (2 ^ 63) + 2, gate = 0\<rparr>\<rparr>)"
  by (simp add: brim_ring_def last_ring_def fresh_ring_def filled_ring_def Commit_def get_def
      set_seq_def wrap64_def)

section \<open>The constructor\<close>

lemma PowerOfTwo64_iff: "PowerOfTwo64 v \<longleftrightarrow> (\<exists>k<63. v = 2 ^ k)"
  by (auto simp: PowerOfTwo64_def powers64_def)


lemma NewLockFreeBuffer_ok:
  assumes "PowerOfTwo64 size0" and "2048 \<le> size0" and "size0 \<le> avail"
  shows "NewLockFreeBuffer roundUp avail bufcnt size0 =
    Return (Inr \<lparr>id_lf = wrap32 (bufcnt + 1), buf = replicate (nat size0) 0, tmp = [],
         size_lf = size0, mask_lf = size0 - 1, done_lf = 0, pseq = \<lparr>cursor = 0, gate = 0\<rparr>,
         cseq = \<lparr>cursor = 0, gate = 0\<rparr>, cwait = 0, pwait = 0\<rparr>)"
  using assms
  by (simp add: NewLockFreeBuffer_def defaultReadBlockSize_def newSequence_def)





section \<open>Read and Peek on a buffer that holds data\<close>

text \<open>
  In a well-formed buffer the mask projects a sequence onto the index \<open>sequence mod size\<close>.
\<close>

lemma well_formed_size: "well_formed this \<Longrightarrow> 0 < size_lf this"
  by (auto simp: well_formed_def PowerOfTwo64_iff)

lemma well_formed_index:
  assumes "well_formed this"
  shows "c AND mask_lf this = c mod size_lf this"
proof -
  from assms obtain k where "size_lf this = 2 ^ k" "mask_lf this = 2 ^ k - 1"
    by (auto simp: well_formed_def PowerOfTwo64_iff)
  then show ?thesis
    by (simp flip: mask_eq_exp_minus_1 take_bit_eq_mask add: take_bit_eq_mod)
qed

lemma consumerWait_ready:
  "cpos < get (pseq this) \<Longrightarrow> consumerWait cpos ys this = Some (None, ys, this)"
  by (cases ys) simp_all

lemma copy_take:
  "m \<le> length p \<Longrightarrow> m \<le> length src \<Longrightarrow> (length p \<le> m \<or> length src \<le> m) \<Longrightarrow>
   copy p src = (take m src @ drop m p, int m)"
  by (auto simp: copy_def Let_def min_def)

lemma Read_available:
  fixes p :: "byte list" and this :: LockFreeBuffer
  defines "cindex \<equiv> get (cseq this) mod size_lf this"
  defines "n \<equiv> min (int (length p)) (min (get (pseq this) - get (cseq this)) (size_lf this - cindex))"
  assumes wf: "well_formed this" and data: "get (cseq this) < get (pseq this)"
    and nonneg: "0 \<le> get (cseq this)" and top: "get (pseq this) < 2 ^ 63"
    and room: "get (cseq this) + int (length p) < 2 ^ 63"
  shows "Read p ys this =
    Some (Return ((n, None), take (nat n) (drop (nat cindex) (buf this)) @ drop (nat n) p,
      this\<lparr>cseq := set_seq (cseq this) (get (cseq this) + n)\<rparr>))"
proof -
  define len where "len = length (buf this)"
  define ci where "ci = nat cindex"
  define r where "r = len - ci"
  define b where "b = nat (get (pseq this) - get (cseq this))"
  define tail where "tail = drop ci (buf this)"
  have sz: "size_lf this = int len" "0 < len"
    using wf well_formed_size [OF wf] by (auto simp: well_formed_def len_def)
  have "0 \<le> cindex" "cindex < int len"
    using sz by (simp_all add: cindex_def)
  then have ci: "get (cseq this) AND mask_lf this = int ci" "ci < len" "cindex = int ci"
    by (simp_all add: ci_def well_formed_index [OF wf] cindex_def [symmetric])
  have nci: "nat cindex = ci"
    by (simp add: ci_def)
  have r: "0 < r" "ci + r = len" "length tail = r"
    using ci by (simp_all add: r_def tail_def len_def)
  have b: "get (pseq this) = get (cseq this) + int b" "0 < b"
    using data by (simp_all add: b_def)
  have n: "n = int (min (length p) (min b r))"
    using r(2) by (simp add: n_def sz ci b)
  have "cindex \<le> get (cseq this)"
    unfolding cindex_def using nonneg by (rule zmod_le_nonneg_dividend)
  with ci(3) b(1) top have "int ci + int b < 2 ^ 63"
    by simp
  then have sums: "wrap64 (int b) = int b" "wrap64 (int ci + int b) = int ci + int b"
    by (simp_all add: wrap64_nonneg)
  have whole_p: "wrap64 (get (cseq this) + int (length p)) = get (cseq this) + int (length p)"
    using nonneg room by (simp add: wrap64_nonneg)
  have advance: "wrap64 (get (cseq this) + int k) = get (cseq this) + int k" if "k \<le> length p" for k
    using that nonneg room by (simp add: wrap64_nonneg)
  have whole: "sub_slice (buf this) (int ci) (int (length (buf this))) = tail"
    using r by (simp add: sub_slice_def tail_def len_def [symmetric])
  have part: "sub_slice (buf this) (int ci) (int ci + int b) = take b tail"
    by (simp add: sub_slice_def tail_def)
  have bounds: "in_bounds (int ci) (int (length (buf this))) (buf this)"
    using ci(2) by (simp add: in_bounds_def len_def)
  show ?thesis
  proof (cases "length p < b")
    case True
    define m where "m = min (length p) r"
    have "copy p tail = (take m tail @ drop m p, int m)"
      by (rule copy_take) (auto simp: m_def r)
    moreover have "n = int m"
      using True by (simp add: n m_def)
    moreover have "wrap64 (get (cseq this) + int m) = get (cseq this) + int m"
      by (rule advance) (simp add: m_def)
    ultimately show ?thesis
      using True bounds
      by (subst Read.simps) (simp add: Let_def ci(1) b(1) whole nci tail_def whole_p)
  next
    case False
    show ?thesis
    proof (cases "b < r")
      case True
      have "copy p (take b tail) = (take b (take b tail) @ drop b p, int b)"
        using False True by (intro copy_take) (simp_all add: r)
      moreover have "n = int b"
        using False True by (simp add: n)
      moreover have "in_bounds (int ci) (int ci + int b) (buf this)"
        using True r by (simp add: in_bounds_def len_def [symmetric])
      moreover have "int ci + int b < size_lf this"
        using True r by (simp add: sz)
      moreover have "wrap64 (get (cseq this) + int b) = get (cseq this) + int b"
        using False by (intro advance) simp
      ultimately show ?thesis
        using False b(2)
        by (subst Read.simps) (simp add: Let_def ci(1) b(1) part nci tail_def whole_p sums)
    next
      case wrap: False
      have "copy p tail = (take r tail @ drop r p, int r)"
        using False wrap by (intro copy_take) (simp_all add: r)
      moreover have "n = int r"
        using False wrap by (simp add: n)
      moreover have "\<not> int ci + int b < size_lf this"
        using wrap r by (simp add: sz)
      moreover have "wrap64 (get (cseq this) + int r) = get (cseq this) + int r"
        using False wrap by (intro advance) simp
      ultimately show ?thesis
        using False b(2) bounds
        by (subst Read.simps) (simp add: Let_def ci(1) b(1) whole nci tail_def whole_p sums)
    qed
  qed
qed

lemma Peek_ready:
  fixes n :: int and this :: LockFreeBuffer
  defines "m \<equiv> min n (get (pseq this) - get (cseq this))"
  defines "err \<equiv> (if get (pseq this) - get (cseq this) < n then Some ErrBufferInsufficientData else None)"
  defines "cindex \<equiv> get (cseq this) AND mask_lf this"
  defines "len \<equiv> int (length (buf this))"
  assumes "0 \<le> n" "n \<le> size_lf this" "get (cseq this) < get (pseq this)"
  shows "Peek n ys this =
    (if cindex + m > size_lf this then
       (if \<not> in_bounds cindex len (buf this) then Some Panic
        else if \<not> in_bounds 0 (m - int (length (sub_slice (buf this) cindex len))) (buf this) then Some Panic
        else Some (Return
          ((sub_slice (buf this) cindex len @
              sub_slice (buf this) 0 (m - int (length (sub_slice (buf this) cindex len))), err),
           this\<lparr>tmp := sub_slice (buf this) cindex len @
              sub_slice (buf this) 0 (m - int (length (sub_slice (buf this) cindex len)))\<rparr>)))
     else
       (if \<not> in_bounds cindex (cindex + m) (buf this) then Some Panic
        else Some (Return ((sub_slice (buf this) cindex (cindex + m), err), this))))"
  using assms(5-)
  by (auto simp: Peek_def Let_def consumerWait_ready m_def err_def cindex_def len_def min_def)


lemma well_formed_filled_ring: "well_formed (filled_ring\<lparr>cseq := c, pseq := q, done_lf := d\<rparr>)"
proof -
  have "PowerOfTwo64 4096"
    unfolding PowerOfTwo64_iff by (rule exI [of _ 12]) simp
  then show ?thesis
    by (simp add: well_formed_def filled_ring_def)
qed

text \<open>
  C4, amended: on a buffer that holds data (\<open>pseq > cseq\<close>) and whose sequences are
  counts of bytes with \<open>pseq\<close> and \<open>cseq + |p|\<close> below \<open>2^63\<close>, \<^verbatim>\<open>Read(p)\<close> with
  \<open>|p| > 0\<close> returns at once with one contiguous copy: the count \<open>n\<close> is the least of
  \<open>|p|\<close>, the bytes available and the bytes from index \<open>cseq mod size\<close> to the end of
  the array; the first \<open>n\<close> bytes of \<open>p\<close> are the \<open>n\<close> bytes of the array from that
  index, which do not pass its end; \<open>cseq\<close> has advanced by exactly \<open>n\<close> and nothing
  else has changed. The count is less than \<open>|p|\<close> exactly when fewer than \<open>|p|\<close> bytes
  are available or fewer than \<open>|p|\<close> bytes lie before the end of the array. The buffer
  is any well-formed one, as every reachable buffer is.
\<close>

theorem Read_one_contiguous_copy:
  fixes p :: "byte list" and this :: LockFreeBuffer
  defines "cindex \<equiv> get (cseq this) mod size_lf this"
  defines "avail \<equiv> get (pseq this) - get (cseq this)"
  defines "n \<equiv> min (int (length p)) (min avail (size_lf this - cindex))"
  assumes wf: "well_formed this" and data: "get (cseq this) < get (pseq this)" and p: "p \<noteq> []"
    and nonneg: "0 \<le> get (cseq this)" and top: "get (pseq this) < 2 ^ 63"
    and room: "get (cseq this) + int (length p) < 2 ^ 63"
  shows "Read p ys this =
      Some (Return ((n, None), take (nat n) (drop (nat cindex) (buf this)) @ drop (nat n) p,
        this\<lparr>cseq := set_seq (cseq this) (get (cseq this) + n)\<rparr>)) \<and>
    0 < n \<and> cindex + n \<le> size_lf this \<and>
    (n < int (length p) \<longleftrightarrow> avail < int (length p) \<or> size_lf this - cindex < int (length p))"
proof -
  have "cindex < size_lf this"
    using well_formed_size [OF wf] by (simp add: cindex_def)
  with data p have "0 < n" "cindex + n \<le> size_lf this"
    "n < int (length p) \<longleftrightarrow> avail < int (length p) \<or> size_lf this - cindex < int (length p)"
    by (auto simp: n_def avail_def)
  with Read_available [OF wf data nonneg top room, of ys] show ?thesis
    by (simp add: n_def avail_def cindex_def)
qed

text \<open>
  The two reads of the tests' fixture: 256 bytes from the start of the ring, and a read
  of 256 bytes that stops after 96, at the end of the array, with 200 bytes available.
\<close>

theorem Read_one_contiguous_copy_witness:
  "well_formed filled_ring \<and> get (cseq filled_ring) < get (pseq filled_ring) \<and>
   0 \<le> get (cseq filled_ring) \<and> get (pseq filled_ring) < 2 ^ 63 \<and>
   get (cseq filled_ring) + int (length (replicate 256 (0::byte))) < 2 ^ 63 \<and>
   Read (replicate 256 0) [] filled_ring =
     Some (Return ((256, None), replicate 256 97, filled_ring\<lparr>cseq := \<lparr>cursor = 256, gate = 0\<rparr>\<rparr>)) \<and>
   Read (replicate 256 0) []
       (filled_ring\<lparr>cseq := \<lparr>cursor = 4000, gate = 0\<rparr>, pseq := \<lparr>cursor = 4200, gate = 0\<rparr>\<rparr>) =
     Some (Return ((96, None), replicate 96 0 @ replicate 160 0,
       filled_ring\<lparr>cseq := \<lparr>cursor = 4096, gate = 0\<rparr>, pseq := \<lparr>cursor = 4200, gate = 0\<rparr>\<rparr>))"
proof -
  have wf: "well_formed filled_ring"
    "well_formed (filled_ring\<lparr>cseq := \<lparr>cursor = 4000, gate = 0\<rparr>, pseq := \<lparr>cursor = 4200, gate = 0\<rparr>\<rparr>)"
    using well_formed_filled_ring [where c = "cseq filled_ring" and q = "pseq filled_ring" and d = "done_lf filled_ring"]
      well_formed_filled_ring [where c = "\<lparr>cursor = 4000, gate = 0\<rparr>" and q = "\<lparr>cursor = 4200, gate = 0\<rparr>"
        and d = "done_lf filled_ring"]
    by simp_all
  have p: "replicate 256 (0 :: byte) \<noteq> []"
    by simp
  show ?thesis
    using Read_one_contiguous_copy [OF wf(1) _ p, of "[]"] Read_one_contiguous_copy [OF wf(2) _ p, of "[]"] wf(1)
    by (simp add: filled_ring_def get_def set_seq_def)
qed

text \<open>
  The second read of \<^verbatim>\<open>testReadBytes\<close>: after the read of 256 bytes, a read into 4096
  bytes returns the 1792 bytes left.
\<close>

lemma test_ReadBytes:
  "Read (replicate 4096 0) [] (filled_ring\<lparr>cseq := \<lparr>cursor = 256, gate = 0\<rparr>\<rparr>) =
     Some (Return ((1792, None), replicate 1792 97 @ replicate 2304 0,
       filled_ring\<lparr>cseq := \<lparr>cursor = 2048, gate = 0\<rparr>\<rparr>))"
proof -
  have wf: "well_formed (filled_ring\<lparr>cseq := \<lparr>cursor = 256, gate = 0\<rparr>\<rparr>)"
    using well_formed_filled_ring [where c = "\<lparr>cursor = 256, gate = 0\<rparr>" and q = "pseq filled_ring"
        and d = "done_lf filled_ring"]
    by simp
  show ?thesis
    using Read_available [OF wf, where p = "replicate 4096 0" and ys = "[]"]
    by (simp add: filled_ring_def get_def set_seq_def)
qed

text \<open>
  C4 as stated fails where the sum \<open>cseq + |p|\<close> leaves the range of an \<^verbatim>\<open>int64\<close>.
  With \<open>cseq = 2^63 - 6\<close> and \<open>pseq = 2^63 - 3\<close> the ring of 4096 bytes holds 3 bytes,
  from index 4090. \<^verbatim>\<open>Read\<close> into 8 bytes computes \<open>cseq + 8\<close> as \<open>- 2^63 + 2\<close>, finds
  it below \<open>pseq\<close>, and copies the 6 bytes up to the end of the array, the 3 bytes
  after the 3 available among them; it returns 6 and stores \<open>cseq + 6\<close>, which is
  \<open>- 2^63\<close>, in \<open>cseq\<close>. (The ring is in this state after \<open>2^63 - 3\<close> bytes have
  passed through it: \<open>reachable_tail_ring\<close> below.)
\<close>

theorem Read_beyond_int64:
  "well_formed tail_ring \<and> get (pseq tail_ring) - get (cseq tail_ring) = 3 \<and>
   get (cseq tail_ring) mod size_lf tail_ring = 4090 \<and>
   Read (replicate 8 1) [] tail_ring =
     Some (Return ((6, None), replicate 6 0 @ replicate 2 1,
       tail_ring\<lparr>cseq := \<lparr>cursor = - (2 ^ 63), gate = 0\<rparr>\<rparr>))"
proof -
  have "PowerOfTwo64 4096"
    unfolding PowerOfTwo64_iff by (rule exI [of _ 12]) simp
  then have wf: "well_formed tail_ring"
    by (simp add: well_formed_def tail_ring_def last_ring_def fresh_ring_def filled_ring_def)
  have fields: "get (cseq tail_ring) = 2 ^ 63 - 6" "get (pseq tail_ring) = 2 ^ 63 - 3"
    "buf tail_ring = replicate 4096 0" "size_lf tail_ring = 4096" "mask_lf tail_ring = 4095"
    by (simp_all add: tail_ring_def last_ring_def fresh_ring_def filled_ring_def get_def)
  have sums: "wrap64 9223372036854775810 = - 9223372036854775806"
    "wrap64 9223372036854775808 = - 9223372036854775808"
    by (simp_all add: wrap64_def)
  have index: "(9223372036854775802 :: int) AND 4095 = 4090"
    using well_formed_index [OF wf, of "2 ^ 63 - 6"] by (simp add: fields)
  have "Read (replicate 8 1) [] tail_ring =
     Some (Return ((6, None), replicate 6 0 @ replicate 2 1,
       tail_ring\<lparr>cseq := \<lparr>cursor = - (2 ^ 63), gate = 0\<rparr>\<rparr>))"
    by (subst Read.simps)
      (simp add: Let_def fields sums index,
       simp add: in_bounds_def sub_slice_def copy_def set_seq_def sums,
       simp add: tail_ring_def)
  with wf show ?thesis
    by (simp add: fields)
qed




section \<open>Close\<close>

lemma consumerWait_closed_ready:
  "cpos < get (pseq this) \<Longrightarrow>
   consumerWait cpos ys (this\<lparr>done_lf := 1\<rparr>) = Some (None, ys, this\<lparr>done_lf := 1\<rparr>)"
  by (cases ys) simp_all

text \<open>
  C10: \<^verbatim>\<open>Close\<close> returns nil and changes the field \<open>done\<close> only, so \<^verbatim>\<open>Len\<close> is as
  before. The bytes in the ring stay available: \<^verbatim>\<open>Commit\<close> returns what it returned
  before the close, and so do \<^verbatim>\<open>Read\<close> and \<^verbatim>\<open>Peek\<close> on a buffer that holds data, the
  buffers they leave differing in \<open>done\<close> only.
\<close>

theorem Close_frame:
  "Close this = (None, this\<lparr>done_lf := 1\<rparr>) \<and>
   Len (snd (Close this)) = Len this \<and>
   Commit n (snd (Close this)) = (fst (Commit n this), (snd (Commit n this))\<lparr>done_lf := 1\<rparr>) \<and>
   (get (cseq this) < get (pseq this) \<longrightarrow>
      Read p ys (snd (Close this)) =
        (case Read p ys this of
           Some (Return (res, p', this')) \<Rightarrow> Some (Return (res, p', this'\<lparr>done_lf := 1\<rparr>))
         | other \<Rightarrow> other) \<and>
      Peek n ys (snd (Close this)) =
        (case Peek n ys this of
           Some (Return (res, this')) \<Rightarrow> Some (Return (res, this'\<lparr>done_lf := 1\<rparr>))
         | other \<Rightarrow> other))"
proof (intro conjI impI)
  show "Close this = (None, this\<lparr>done_lf := 1\<rparr>)"
    by (simp add: Close_def)
  show "Len (snd (Close this)) = Len this"
    by (simp add: Close_def Len_def)
  show "Commit n (snd (Close this)) = (fst (Commit n this), (snd (Commit n this))\<lparr>done_lf := 1\<rparr>)"
    by (simp add: Close_def Commit_def Let_def)
next
  assume data: "get (cseq this) < get (pseq this)"
  show "Read p ys (snd (Close this)) =
        (case Read p ys this of
           Some (Return (res, p', this')) \<Rightarrow> Some (Return (res, p', this'\<lparr>done_lf := 1\<rparr>))
         | other \<Rightarrow> other)"
    using data
    by (simp add: Close_def Read.simps [of p ys this] Read.simps [of p ys "this\<lparr>done_lf := 1\<rparr>"]
        Let_def split: prod.split)
  show "Peek n ys (snd (Close this)) =
        (case Peek n ys this of
           Some (Return (res, this')) \<Rightarrow> Some (Return (res, this'\<lparr>done_lf := 1\<rparr>))
         | other \<Rightarrow> other)"
    using data
    by (simp add: Close_def Peek_def Let_def consumerWait_ready consumerWait_closed_ready)
qed

text \<open>
  The tests' fixture after \<^verbatim>\<open>Close\<close>: it still holds 2048 bytes, of which
  \<^verbatim>\<open>Commit\<close>, \<^verbatim>\<open>Read\<close> and \<^verbatim>\<open>Peek\<close> deliver what they deliver before the close.
\<close>

theorem Close_frame_witness:
  "get (cseq filled_ring) < get (pseq filled_ring) \<and>
   Close filled_ring = (None, filled_ring\<lparr>done_lf := 1\<rparr>) \<and>
   Len (filled_ring\<lparr>done_lf := 1\<rparr>) = 2048 \<and>
   Commit 256 (filled_ring\<lparr>done_lf := 1\<rparr>) =
     ((256, None), filled_ring\<lparr>done_lf := 1, cseq := \<lparr>cursor = 256, gate = 0\<rparr>\<rparr>) \<and>
   Read (replicate 256 0) [] (filled_ring\<lparr>done_lf := 1\<rparr>) =
     Some (Return ((256, None), replicate 256 97,
       filled_ring\<lparr>done_lf := 1, cseq := \<lparr>cursor = 256, gate = 0\<rparr>\<rparr>)) \<and>
   Peek 100 [] (filled_ring\<lparr>done_lf := 1\<rparr>) =
     Some (Return ((take 100 (buf filled_ring), None), filled_ring\<lparr>done_lf := 1\<rparr>))"
proof -
  have wf: "well_formed filled_ring"
    using well_formed_filled_ring [where c = "cseq filled_ring" and q = "pseq filled_ring" and d = "done_lf filled_ring"]
    by simp
  have data: "get (cseq filled_ring) < get (pseq filled_ring)"
    by (simp add: filled_ring_def get_def)
  have rd: "Read (replicate 256 0) [] filled_ring =
     Some (Return ((256, None), replicate 256 97, filled_ring\<lparr>cseq := \<lparr>cursor = 256, gate = 0\<rparr>\<rparr>))"
    using Read_available [OF wf data, where p = "replicate 256 0" and ys = "[]"]
    by (simp add: filled_ring_def get_def set_seq_def)
  have pk: "Peek 100 [] filled_ring = Some (Return ((take 100 (buf filled_ring), None), filled_ring))"
    using data
    by (simp add: Peek_ready filled_ring_def get_def in_bounds_def sub_slice_def)
  have cm: "Commit 256 filled_ring = ((256, None), filled_ring\<lparr>cseq := \<lparr>cursor = 256, gate = 0\<rparr>\<rparr>)"
    by (simp add: Commit_def filled_ring_def get_def set_seq_def wrap64_def)
  note cf = Close_frame [of filled_ring 256 "replicate 256 0" "[]"]
    and cf' = Close_frame [of filled_ring 100 "[]" "[]"]
  from cf have cl: "Close filled_ring = (None, filled_ring\<lparr>done_lf := 1\<rparr>)"
    by (rule conjunct1)
  then have st: "snd (Close filled_ring) = filled_ring\<lparr>done_lf := 1\<rparr>"
    by simp
  from cf have "Len (snd (Close filled_ring)) = Len filled_ring"
    by blast
  then have ln: "Len (filled_ring\<lparr>done_lf := 1\<rparr>) = 2048"
    unfolding st by (simp add: Len_def filled_ring_def get_def wrap64_def)
  from cf have "Commit 256 (snd (Close filled_ring)) =
      (fst (Commit 256 filled_ring), (snd (Commit 256 filled_ring))\<lparr>done_lf := 1\<rparr>)"
    by blast
  then have c: "Commit 256 (filled_ring\<lparr>done_lf := 1\<rparr>) =
      ((256, None), filled_ring\<lparr>done_lf := 1, cseq := \<lparr>cursor = 256, gate = 0\<rparr>\<rparr>)"
    unfolding st cm by (simp add: filled_ring_def)
  from cf data have "Read (replicate 256 0) [] (snd (Close filled_ring)) =
      (case Read (replicate 256 0) [] filled_ring of
         Some (Return (res, p', this')) \<Rightarrow> Some (Return (res, p', this'\<lparr>done_lf := 1\<rparr>))
       | other \<Rightarrow> other)"
    by blast
  then have r: "Read (replicate 256 0) [] (filled_ring\<lparr>done_lf := 1\<rparr>) =
      Some (Return ((256, None), replicate 256 97,
        filled_ring\<lparr>done_lf := 1, cseq := \<lparr>cursor = 256, gate = 0\<rparr>\<rparr>))"
    unfolding st rd by (simp add: filled_ring_def)
  from cf' data have "Peek 100 [] (snd (Close filled_ring)) =
      (case Peek 100 [] filled_ring of
         Some (Return (res, this')) \<Rightarrow> Some (Return (res, this'\<lparr>done_lf := 1\<rparr>))
       | other \<Rightarrow> other)"
    by blast
  then have p: "Peek 100 [] (filled_ring\<lparr>done_lf := 1\<rparr>) =
      Some (Return ((take 100 (buf filled_ring), None), filled_ring\<lparr>done_lf := 1\<rparr>))"
    unfolding st pk by simp
  from data cl ln c r p show ?thesis
    by blast
qed

section \<open>The producer's gate\<close>

lemma after_yields_simps [simp]:
  "after_yields [] s = s"
  "after_yields (y # ys) s = after_yields ys (y s)"
  by (simp_all add: after_yields_def)

lemma ex_le_Suc: "(\<exists>k\<le>Suc n. P k) \<longleftrightarrow> P 0 \<or> (\<exists>k\<le>n. P (Suc k))"
  by (metis Suc_le_mono le0 not0_implies_Suc)

text \<open>
  The producer's loop returns without an error exactly when, after some number \<open>k\<close> of
  yields, the consumer's sequence has reached \<open>wrap\<close>, no earlier state having reached
  it and \<^verbatim>\<open>done\<close> not having been seen set.
\<close>

lemma producerWait_returns:
  "producerWait wrap ys s = Some (None, c, ys', s') \<longleftrightarrow>
     (\<exists>k\<le>length ys. ys' = drop k ys \<and> s' = after_yields (take k ys) s \<and> c = get (cseq s') \<and>
        wrap \<le> get (cseq s') \<and>
        (\<forall>j<k. get (cseq (after_yields (take j ys) s)) < wrap \<and>
                done_lf (after_yields (take (Suc j) ys) s) \<noteq> 1))"
proof (induction ys arbitrary: s)
  case Nil
  show ?case by (auto simp: Let_def)
next
  case (Cons y ys)
  show ?case
  proof (cases "wrap \<le> get (cseq s)")
    case True
    then show ?thesis
      by (auto simp: Let_def ex_le_Suc All_less_Suc2)
  next
    case False
    show ?thesis
    proof (cases "done_lf (y s) = 1")
      case True
      with False show ?thesis
        by (auto simp: Let_def ex_le_Suc All_less_Suc2)
    next
      case running: False
      with False have "producerWait wrap (y # ys) s = producerWait wrap ys (y s)"
        by (simp add: Let_def)
      with False running show ?thesis
        by (auto simp: Cons.IH ex_le_Suc All_less_Suc2)
    qed
  qed
qed

lemma producerWait_error:
  "producerWait wrap ys s = Some (Some e, c, ys', s') \<Longrightarrow>
     e = EOF \<and> done_lf s' = 1 \<and>
     (\<exists>k\<le>length ys. ys' = drop k ys \<and> s' = after_yields (take k ys) s)"
proof (induction ys arbitrary: s)
  case Nil
  then show ?case by (auto simp: Let_def split: if_splits)
next
  case (Cons y ys)
  show ?case
  proof (cases "wrap > get (cseq s) \<and> done_lf (y s) \<noteq> 1")
    case True
    with Cons.prems have "producerWait wrap ys (y s) = Some (Some e, c, ys', s')"
      by (simp add: Let_def)
    from Cons.IH [OF this] show ?thesis
      by (auto simp: ex_le_Suc)
  next
    case False
    with Cons.prems show ?thesis
      by (auto simp: Let_def ex_le_Suc split: if_splits intro: exI [of _ 0])
  qed
qed



section \<open>The sequence invariant\<close>

lemma ring_inv_cwait [simp]: "ring_inv (this\<lparr>cwait := c\<rparr>) = ring_inv this"
  by (simp add: ring_inv_def well_formed_def)

lemma ring_inv_pwait [simp]: "ring_inv (this\<lparr>pwait := c\<rparr>) = ring_inv this"
  by (simp add: ring_inv_def well_formed_def)

lemma ring_inv_tmp [simp]: "ring_inv (this\<lparr>tmp := t\<rparr>) = ring_inv this"
  by (simp add: ring_inv_def well_formed_def)

lemma ring_inv_done [simp]: "ring_inv (this\<lparr>done_lf := d\<rparr>) = ring_inv this"
  by (simp add: ring_inv_def well_formed_def)

lemma ring_inv_New:
  assumes "NewLockFreeBuffer roundUp avail bufcnt size0 = Return (Inr this)"
  shows "ring_inv this"
proof -
  define sz where "sz = (if size0 = 0 then defaultBufferSize else size0)"
  from assms have sz: "PowerOfTwo64 sz" "2048 \<le> sz"
    by (auto simp: NewLockFreeBuffer_def Let_def sz_def defaultReadBlockSize_def split: if_splits)
  with assms have "this = \<lparr>id_lf = wrap32 (bufcnt + 1), buf = replicate (nat sz) 0, tmp = [], size_lf = sz,
         mask_lf = sz - 1, done_lf = 0, pseq = \<lparr>cursor = 0, gate = 0\<rparr>,
         cseq = \<lparr>cursor = 0, gate = 0\<rparr>, cwait = 0, pwait = 0\<rparr>"
    by (auto simp: NewLockFreeBuffer_def Let_def sz_def newSequence_def split: if_splits)
  with sz show ?thesis
    by (simp add: ring_inv_def well_formed_def get_def)
qed

lemma ring_inv_Close: "ring_inv this \<Longrightarrow> Close this = (err, this') \<Longrightarrow> ring_inv this'"
  by (auto simp: Close_def)

lemma Commit_state:
  "Commit n this = (res, this') \<Longrightarrow>
   this' = this \<or>
   (0 \<le> n \<and> wrap64 (get (cseq this) + n) \<le> get (pseq this) \<and>
    this' = this\<lparr>cseq := set_seq (cseq this) (wrap64 (get (cseq this) + n))\<rparr>)"
  by (auto simp: Commit_def Let_def split: if_splits)

lemma ring_inv_advance:
  "ring_inv this \<Longrightarrow> 0 \<le> n \<Longrightarrow> get (cseq this) + n \<le> get (pseq this) \<Longrightarrow>
   ring_inv (this\<lparr>cseq := set_seq (cseq this) (get (cseq this) + n)\<rparr>)"
  by (simp add: ring_inv_def well_formed_def get_def set_seq_def)

lemma ring_inv_Commit:
  assumes inv: "ring_inv this" and room: "get (cseq this) + n < 2 ^ 63"
    and cm: "Commit n this = (res, this')"
  shows "ring_inv this'"
proof -
  from Commit_state [OF cm] consider "this' = this"
    | "0 \<le> n" "wrap64 (get (cseq this) + n) \<le> get (pseq this)"
      "this' = this\<lparr>cseq := set_seq (cseq this) (wrap64 (get (cseq this) + n))\<rparr>"
    by blast
  then show ?thesis
  proof cases
    case 1
    with inv show ?thesis by simp
  next
    case 2
    from inv have "0 \<le> get (cseq this)"
      by (simp add: ring_inv_def)
    with 2(1) room have "wrap64 (get (cseq this) + n) = get (cseq this) + n"
      by (simp add: wrap64_nonneg)
    with 2 ring_inv_advance [OF inv, of n] show ?thesis
      by simp
  qed
qed

lemma producer_side_yields:
  "\<forall>y \<in> set ys. producer_side y \<Longrightarrow> ring_inv s \<Longrightarrow>
   ring_inv (after_yields ys s) \<and> cseq (after_yields ys s) = cseq s \<and>
   size_lf (after_yields ys s) = size_lf s"
  by (induction ys arbitrary: s) (auto simp: producer_side_def)

lemma consumer_side_yields:
  "\<forall>y \<in> set ys. consumer_side y \<Longrightarrow> ring_inv s \<Longrightarrow>
   ring_inv (after_yields ys s) \<and> pseq (after_yields ys s) = pseq s \<and>
   size_lf (after_yields ys s) = size_lf s"
  by (induction ys arbitrary: s) (auto simp: consumer_side_def)

lemma consumerWait_result:
  "consumerWait c ys s = Some (e, ys', s') \<Longrightarrow>
   (\<exists>k\<le>length ys. ys' = drop k ys \<and> s' = after_yields (take k ys) s) \<and>
   (e = None \<longrightarrow> c < get (pseq s'))"
proof (induction ys arbitrary: s)
  case Nil
  then show ?case by (auto split: if_splits)
next
  case (Cons y ys)
  show ?case
  proof (cases "c \<ge> get (pseq s) \<and> done_lf (y s) \<noteq> 1")
    case True
    with Cons.prems have "consumerWait c ys (y s) = Some (e, ys', s')"
      by (simp add: Let_def)
    from Cons.IH [OF this] show ?thesis
      by (auto simp: ex_le_Suc)
  next
    case False
    with Cons.prems show ?thesis
      by (auto simp: Let_def ex_le_Suc split: if_splits intro: exI [of _ 0])
  qed
qed

subsection \<open>The consumer's operations keep the invariant\<close>

lemma ring_inv_Read_available:
  assumes inv: "ring_inv this" and data: "get (cseq this) < get (pseq this)"
    and room: "get (cseq this) + int (length p) < 2 ^ 63"
    and rd: "Read p ys this = Some (Return (res, p', this'))"
  shows "ring_inv this'"
proof -
  from inv have wf: "well_formed this" and nonneg: "0 \<le> get (cseq this)"
    and top: "get (pseq this) < 2 ^ 63"
    by (simp_all add: ring_inv_def)
  define n where "n = min (int (length p))
    (min (get (pseq this) - get (cseq this)) (size_lf this - get (cseq this) mod size_lf this))"
  have "get (cseq this) mod size_lf this < size_lf this"
    using well_formed_size [OF wf] by simp
  with data have n: "0 \<le> n" "get (cseq this) + n \<le> get (pseq this)"
    by (simp_all add: n_def)
  from rd Read_available [OF wf data nonneg top room, of ys]
  have "this' = this\<lparr>cseq := set_seq (cseq this) (get (cseq this) + n)\<rparr>"
    by (simp add: n_def)
  with ring_inv_advance [OF inv n] show ?thesis
    by simp
qed

lemma ring_inv_Read:
  assumes inv: "ring_inv this" and ys: "\<forall>y \<in> set ys. producer_side y"
    and room: "get (cseq this) + int (length p) < 2 ^ 63"
    and rd: "Read p ys this = Some (Return (res, p', this'))"
  shows "ring_inv this'"
proof (cases "get (cseq this) < get (pseq this)")
  case True
  show ?thesis
    by (rule ring_inv_Read_available [OF inv True room rd])
next
  case False
  define entered where "entered = this\<lparr>cwait := wrap64 (cwait this + 1)\<rparr>"
  have inv_e: "ring_inv entered" and cs: "cseq entered = cseq this"
    using inv by (simp_all add: entered_def)
  from inv have "0 \<le> get (cseq this)"
    by (simp add: ring_inv_def)
  with room have "wrap64 (get (cseq this) + int (length p)) = get (cseq this) + int (length p)"
    by (simp add: wrap64_nonneg)
  with False have unfold: "Read p ys this =
    (case consumerWait (get (cseq this)) ys entered of
       None \<Rightarrow> None
     | Some (Some e, ys', this') \<Rightarrow> Some (Return ((0, Some e), p, this'))
     | Some (None, ys', this') \<Rightarrow> Read p ys' this')"
    unfolding entered_def
    by (subst Read.simps) (simp add: Let_def)
  from rd obtain e ys' s1 where w: "consumerWait (get (cseq this)) ys entered = Some (e, ys', s1)"
    unfolding unfold by (auto split: option.splits)
  from consumerWait_result [OF w] obtain k
    where k: "s1 = after_yields (take k ys) entered" and e: "e = None \<longrightarrow> get (cseq this) < get (pseq s1)"
    by blast
  from ys have "\<forall>y \<in> set (take k ys). producer_side y"
    by (meson in_set_takeD)
  from producer_side_yields [OF this inv_e] k cs
  have s1: "ring_inv s1" "cseq s1 = cseq this"
    by simp_all
  show ?thesis
  proof (cases e)
    case None
    with rd w have "Read p ys' s1 = Some (Return (res, p', this'))"
      unfolding unfold by simp
    moreover from None e s1 have "get (cseq s1) < get (pseq s1)"
      by simp
    moreover from room s1 have "get (cseq s1) + int (length p) < 2 ^ 63"
      by simp
    ultimately show ?thesis
      using s1(1) ring_inv_Read_available [of s1 p ys' res p' this'] by blast
  next
    case (Some err)
    with rd w have "this' = s1"
      unfolding unfold by simp
    with s1 show ?thesis by simp
  qed
qed

lemma Peek_state:
  "Peek n ys this = Some (Return (res, this')) \<Longrightarrow>
   \<exists>k\<le>length ys. \<exists>t. this' = (after_yields (take k ys) this)\<lparr>tmp := t\<rparr>"
proof -
  assume pk: "Peek n ys this = Some (Return (res, this'))"
  have same: "\<exists>k\<le>length ys. \<exists>t. s = (after_yields (take k ys) this)\<lparr>tmp := t\<rparr>"
    if "\<exists>k\<le>length ys. s = after_yields (take k ys) this" for s
  proof -
    from that obtain k where "k \<le> length ys" "s = after_yields (take k ys) this"
      by blast
    then have "k \<le> length ys \<and> s = (after_yields (take k ys) this)\<lparr>tmp := tmp s\<rparr>"
      by simp
    then show ?thesis by blast
  qed
  show ?thesis
  proof (cases "n > size_lf this \<or> n < 0")
    case True
    with pk have "this' = this"
      by (auto simp: Peek_def split: if_splits)
    then have "\<exists>k\<le>length ys. this' = after_yields (take k ys) this"
      by (intro exI [of _ 0]) simp
    then show ?thesis by (rule same)
  next
    case False
    with pk obtain e ys' s1 where w: "consumerWait (get (cseq this)) ys this = Some (e, ys', s1)"
      by (auto simp: Peek_def Let_def split: option.splits)
    from consumerWait_result [OF w] have s1: "\<exists>k\<le>length ys. s1 = after_yields (take k ys) this"
      by blast
    from pk False w have "this' = s1 \<or> (\<exists>t. this' = s1\<lparr>tmp := t\<rparr>)"
      by (cases e) (auto simp: Peek_def Let_def split: if_splits)
    with s1 same [OF s1] show ?thesis
      by auto
  qed
qed

lemma ring_inv_Peek:
  assumes inv: "ring_inv this" and ys: "\<forall>y \<in> set ys. producer_side y"
    and pk: "Peek n ys this = Some (Return (res, this'))"
  shows "ring_inv this'"
proof -
  from Peek_state [OF pk] obtain k t where k: "this' = (after_yields (take k ys) this)\<lparr>tmp := t\<rparr>"
    by blast
  from ys have "\<forall>y \<in> set (take k ys). producer_side y"
    by (meson in_set_takeD)
  from producer_side_yields [OF this inv] k show ?thesis
    by simp
qed

subsection \<open>The producer's operations keep the invariant\<close>

lemma ringCopy_length:
  assumes "length src \<le> length dst" "0 \<le> start" "start \<le> int (length dst)"
    and "ringCopy dst src start = Some (Return (d, n))"
  shows "length d = length dst"
  using assms(4) unfolding ringCopy_explicit [OF assms(1-3)]
  using assms(1-3) by (auto split: if_splits)

lemma producerWait_result:
  assumes "producerWait wrap ys s = Some (e, c, ys', s')"
  shows "(\<exists>k\<le>length ys. ys' = drop k ys \<and> s' = after_yields (take k ys) s) \<and>
    (e = None \<longrightarrow> c = get (cseq s') \<and> wrap \<le> c)"
proof (cases e)
  case None
  with assms [unfolded None producerWait_returns] show ?thesis
    by blast
next
  case (Some err)
  with producerWait_error [of wrap ys s err c ys' s'] assms show ?thesis
    by simp
qed

lemma waitForWriteSpace_inv:
  assumes inv: "ring_inv this" and ys: "\<forall>y \<in> set ys. consumer_side y"
    and w: "waitForWriteSpace n ys this = Some ((start, cnt, err), ys', this')"
  shows "ring_inv this' \<and> get (pseq this') = get (pseq this) \<and> size_lf this' = size_lf this \<and>
    (\<forall>y \<in> set ys'. consumer_side y) \<and>
    (err = None \<longrightarrow> start = get (pseq this) \<and> cnt = n \<and>
       get (pseq this) + n - size_lf this \<le> get (cseq this'))"
proof (cases "get (pseq this) + n - size_lf this > gate (pseq this) \<or> gate (pseq this) > get (pseq this)")
  case False
  with w have "this' = this" "ys' = ys" "start = get (pseq this)" "cnt = n"
    by (auto simp: waitForWriteSpace_def Let_def)
  with inv ys False show ?thesis
    by (auto simp: ring_inv_def)
next
  case True
  define wrap where "wrap = get (pseq this) + n - size_lf this"
  define entered where "entered = this\<lparr>pwait := pwait this + 1\<rparr>"
  have inv_e: "ring_inv entered" and ps: "pseq entered = pseq this" "size_lf entered = size_lf this"
    using inv by (simp_all add: entered_def)
  from True have unfold: "waitForWriteSpace n ys this =
    (case producerWait wrap ys entered of
       None \<Rightarrow> None
     | Some (Some e, cpos, ys', this') \<Rightarrow> Some ((0, 0, Some e), ys', this')
     | Some (None, cpos, ys', this') \<Rightarrow>
         Some ((get (pseq this), n, None), ys', this'\<lparr>pseq := (pseq this')\<lparr>gate := cpos\<rparr>\<rparr>))"
    unfolding waitForWriteSpace_def Let_def wrap_def entered_def
    by simp
  from w obtain e c s1 where pw: "producerWait wrap ys entered = Some (e, c, ys', s1)"
    unfolding unfold by (auto split: option.splits)
  from producerWait_result [OF pw] obtain k
    where k: "ys' = drop k ys" "s1 = after_yields (take k ys) entered"
      and c: "e = None \<longrightarrow> c = get (cseq s1) \<and> wrap \<le> c"
    by blast
  from ys have sub: "\<forall>y \<in> set (take k ys). consumer_side y" "\<forall>y \<in> set ys'. consumer_side y"
    unfolding k by (meson in_set_takeD in_set_dropD)+
  from consumer_side_yields [OF sub(1) inv_e] k ps
  have s1: "ring_inv s1" "pseq s1 = pseq this" "size_lf s1 = size_lf this"
    by simp_all
  show ?thesis
  proof (cases e)
    case None
    with w pw have r: "start = get (pseq this)" "cnt = n" "err = None"
      "this' = s1\<lparr>pseq := (pseq s1)\<lparr>gate := c\<rparr>\<rparr>"
      unfolding unfold by simp_all
    with None c s1 have "ring_inv this'" "get (pseq this') = get (pseq this)"
      "size_lf this' = size_lf this" "get (pseq this) + n - size_lf this \<le> get (cseq this')"
      by (simp_all add: ring_inv_def well_formed_def get_def wrap_def)
    with r sub(2) show ?thesis
      by simp
  next
    case (Some e')
    with w pw have "err = Some e'" "this' = s1"
      unfolding unfold by simp_all
    with s1 sub(2) show ?thesis
      by simp
  qed
qed

lemma ring_inv_Write:
  assumes inv: "ring_inv this" and ys: "\<forall>y \<in> set ys. consumer_side y"
    and below: "get (pseq this) + int (length p) < 2 ^ 63"
    and wr: "Write p ys this = Some (Return (res, this'))"
  shows "ring_inv this'"
proof -
  from wr obtain start cnt err ys' s1
    where w: "waitForWriteSpace (int (length p)) ys this = Some ((start, cnt, err), ys', s1)"
    by (auto simp: Write_def split: option.splits)
  from waitForWriteSpace_inv [OF inv ys w]
  have s1: "ring_inv s1" "get (pseq s1) = get (pseq this)" "size_lf s1 = size_lf this"
    and ok: "err = None \<longrightarrow> start = get (pseq this) \<and>
       get (pseq this) + int (length p) - size_lf this \<le> get (cseq s1)"
    by simp_all
  show ?thesis
  proof (cases err)
    case (Some e)
    with wr w have "this' = s1"
      by (simp add: Write_def)
    with s1 show ?thesis by simp
  next
    case None
    with ok have start: "start = get (pseq s1)"
      and room: "get (pseq s1) + int (length p) \<le> get (cseq s1) + size_lf s1"
      using s1 by simp_all
    from s1 have wf: "well_formed s1" and le: "get (cseq s1) \<le> get (pseq s1)"
      and g: "gate (pseq s1) \<le> get (cseq s1)" and nonneg: "0 \<le> get (cseq s1)"
      by (simp_all add: ring_inv_def)
    from below s1 have top: "get (pseq s1) + int (length p) < 2 ^ 63"
      by simp
    from wf have len: "int (length (buf s1)) = size_lf s1"
      by (simp add: well_formed_def)
    from wr w None obtain buf' tot where rc: "ringCopy (buf s1) p (start AND mask_lf s1) = Some (Return (buf', tot))"
      and this': "this' = s1\<lparr>buf := buf', pseq := set_seq (pseq s1) (start + int (length p))\<rparr>"
      by (auto simp: Write_def split: option.splits outcome.splits)
    have "length p \<le> length (buf s1)"
      using room le len by linarith
    moreover have "0 \<le> start AND mask_lf s1" "start AND mask_lf s1 \<le> int (length (buf s1))"
      using well_formed_size [OF wf] by (simp_all add: well_formed_index [OF wf] len less_imp_le)
    ultimately have "length buf' = length (buf s1)"
      using rc by (rule ringCopy_length)
    with wf le g room nonneg top show ?thesis
      by (simp add: this' start ring_inv_def well_formed_def get_def set_seq_def)
  qed
qed

lemma ring_inv_ReadFrom_loop:
  assumes "ring_inv this" and "\<forall>y \<in> set ys. consumer_side y"
    and "ReadFrom_loop tot r ys this = Some (Return (res, this'))"
    and "get (pseq this) + int (reader_bytes r) + defaultReadBlockSize < 2 ^ 63"
  shows "ring_inv this'"
  using assms
proof (induction r arbitrary: tot ys this)
  case (Nil tot ys this)
  from Nil.prems(3) obtain start cnt err ys' s1
    where w: "waitForWriteSpace defaultReadBlockSize ys this = Some ((start, cnt, err), ys', s1)"
    by (subst (asm) ReadFrom_loop.simps) (auto split: option.splits)
  from waitForWriteSpace_inv [OF Nil.prems(1,2) w] have s1: "ring_inv s1"
    by simp
  from Nil.prems(3) w have "this' = s1"
    by (subst (asm) ReadFrom_loop.simps)
       (auto simp: Let_def reader_Read_def split: option.splits if_splits)
  with s1 show ?case by simp
next
  case (Cons x r tot ys this)
  obtain d0 e0 where x: "x = (d0, e0)"
    by (cases x)
  from Cons.prems(3) obtain start cnt err ys' s1
    where w: "waitForWriteSpace defaultReadBlockSize ys this = Some ((start, cnt, err), ys', s1)"
    by (subst (asm) ReadFrom_loop.simps) (auto split: option.splits)
  from waitForWriteSpace_inv [OF Cons.prems(1,2) w]
  have s1: "ring_inv s1" and ys': "\<forall>y \<in> set ys'. consumer_side y"
    and ok: "err = None \<longrightarrow> start = get (pseq s1) \<and> cnt = defaultReadBlockSize \<and>
       get (pseq s1) + defaultReadBlockSize \<le> get (cseq s1) + size_lf s1"
    and ps1: "get (pseq s1) = get (pseq this)"
    by auto
  from Cons.prems(4) ps1
  have below: "get (pseq s1) + int (length d0) + int (reader_bytes r) + defaultReadBlockSize < 2 ^ 63"
    by (simp add: reader_bytes_def x)
  show ?case
  proof (cases err)
    case (Some e)
    with Cons.prems(3) w have "this' = s1"
      by (subst (asm) ReadFrom_loop.simps) simp
    with s1 show ?thesis by simp
  next
    case None
    define pstart where "pstart = start AND mask_lf s1"
    define pend where "pend = (if pstart + cnt > int (length (buf s1)) then int (length (buf s1)) else pstart + cnt)"
    define d where "d = take (nat (pend - pstart)) d0"
    define n where "n = int (length d)"
    define s2 where "s2 = (if n > 0
       then s1\<lparr>buf := take (nat pstart) (buf s1) @ d @ drop (nat pstart + length d) (buf s1),
               pseq := set_seq (pseq s1) (start + n)\<rparr>
       else s1)"
    define tot' where "tot' = (if n > 0 then tot + n else tot)"
    have unfold: "ReadFrom_loop tot (x # r) ys this =
      (if \<not> in_bounds pstart pend (buf s1) then Some Panic
       else if e0 = None then ReadFrom_loop tot' r ys' s2
       else Some (Return ((tot', e0), s2)))"
      by (subst ReadFrom_loop.simps, cases e0)
         (simp_all add: w None Let_def reader_Read_def x pstart_def pend_def d_def n_def s2_def tot'_def)
    with Cons.prems(3) have inb: "in_bounds pstart pend (buf s1)"
      and step: "(if e0 = None then ReadFrom_loop tot' r ys' s2 else Some (Return ((tot', e0), s2)))
        = Some (Return (res, this'))"
      by (auto split: if_splits)
    from inb have b: "0 \<le> pstart" "pstart \<le> pend" "pend \<le> int (length (buf s1))"
      by (simp_all add: in_bounds_def)
    have "pend \<le> pstart + cnt"
      by (simp add: pend_def)
    moreover have "n \<le> pend - pstart"
      using b by (simp add: n_def d_def)
    ultimately have n: "0 \<le> n" "n \<le> cnt" "nat pstart + length d \<le> length (buf s1)"
      using b by (simp_all add: n_def)
    have nd: "n \<le> int (length d0)"
      by (simp add: n_def d_def)
    from s1 have wf: "well_formed s1" and le: "get (cseq s1) \<le> get (pseq s1)"
      and g: "gate (pseq s1) \<le> get (cseq s1)" and nonneg: "0 \<le> get (cseq s1)"
      by (simp_all add: ring_inv_def)
    from below nd have top: "get (pseq s1) + n < 2 ^ 63"
      by (simp add: defaultReadBlockSize_def)
    have "ring_inv s2"
    proof (cases "n > 0")
      case True
      with wf le g n ok None b nonneg top show ?thesis
        by (simp add: s2_def ring_inv_def well_formed_def get_def set_seq_def)
    next
      case False
      with s1 show ?thesis by (simp add: s2_def)
    qed
    have below2: "get (pseq s2) + int (reader_bytes r) + defaultReadBlockSize < 2 ^ 63"
      using below nd ok None n(1) by (simp add: s2_def get_def set_seq_def)
    show ?thesis
    proof (cases e0)
      case (Some e)
      with step have "this' = s2" by simp
      with \<open>ring_inv s2\<close> show ?thesis by simp
    next
      case e0: None
      with step have "ReadFrom_loop tot' r ys' s2 = Some (Return (res, this'))"
        by simp
      from Cons.IH [OF \<open>ring_inv s2\<close> ys' this below2] show ?thesis .
    qed
  qed
qed

lemma ring_inv_ReadFrom:
  "ring_inv this \<Longrightarrow> \<forall>y \<in> set ys. consumer_side y \<Longrightarrow>
   ReadFrom r ys this = Some (Return (res, this')) \<Longrightarrow>
   get (pseq this) + int (reader_bytes r) + defaultReadBlockSize < 2 ^ 63 \<Longrightarrow> ring_inv this'"
  unfolding ReadFrom_def by (rule ring_inv_ReadFrom_loop)

subsection \<open>Every reachable state\<close>

lemma reachable_ring_inv: "reachable this \<Longrightarrow> ring_inv this"
proof (induction rule: reachable.induct)
  case (after_New roundUp avail bufcnt size0 this)
  then show ?case by (rule ring_inv_New)
next
  case (after_Close this err this')
  then show ?case by (auto intro: ring_inv_Close)
next
  case (after_Commit this n res this')
  then show ?case by (auto intro: ring_inv_Commit)
next
  case (after_Peek this ys n res this')
  then show ?case by (auto intro: ring_inv_Peek)
next
  case (after_Read this ys p res p' this')
  then show ?case by (auto intro: ring_inv_Read)
next
  case (after_Write this ys p res this')
  then show ?case by (auto intro: ring_inv_Write)
next
  case (after_ReadFrom this ys r res this')
  then show ?case by (auto intro: ring_inv_ReadFrom)
qed

text \<open>
  C1, amended: in every state the buffer can be in before a sequence overflows, that is,
  in the state the constructor returns and in the state in which any call of
  \<^verbatim>\<open>Close\<close>, \<^verbatim>\<open>Commit\<close>, \<^verbatim>\<open>Peek\<close>, \<^verbatim>\<open>Read\<close>, \<^verbatim>\<open>Write\<close> or \<^verbatim>\<open>ReadFrom\<close> on such
  a state returns (with or without an error, the other side having run during its
  waits), the sum of a sequence and the call's argument being below \<open>2^63\<close>,
  \<open>0 \<le> pseq - cseq \<le> size\<close>: the invariant holds before and after every such
  completed operation. \<^verbatim>\<open>WriteTo\<close> and the adaptors \<^verbatim>\<open>readFrom\<close> and \<^verbatim>\<open>writeTo\<close>
  change the buffer through \<^verbatim>\<open>Peek\<close>, \<^verbatim>\<open>Commit\<close> and \<^verbatim>\<open>Write\<close> only.
\<close>

theorem sequence_invariant:
  assumes "reachable this"
  shows "0 \<le> get (pseq this) - get (cseq this) \<and> get (pseq this) - get (cseq this) \<le> size_lf this"
  using reachable_ring_inv [OF assms] by (simp add: ring_inv_def)

text \<open>
  The conditions on the yields are met by the operations of the other side. A call of
  \<^verbatim>\<open>Commit\<close>, \<^verbatim>\<open>Close\<close>, \<^verbatim>\<open>Read\<close> or \<^verbatim>\<open>Peek\<close> that returns is what a consumer
  may do while the producer waits; a call of \<^verbatim>\<open>Close\<close>, \<^verbatim>\<open>Write\<close> or
  \<^verbatim>\<open>ReadFrom\<close> that returns is what a producer may do while the consumer waits.
\<close>

lemma consumer_side_Commit: "consumer_side (Commit_step n)"
  unfolding consumer_side_def
proof (intro allI impI)
  fix s
  assume inv: "ring_inv s"
  show "ring_inv (Commit_step n s) \<and> pseq (Commit_step n s) = pseq s \<and>
    size_lf (Commit_step n s) = size_lf s"
  proof (cases "get (cseq s) + n < 2 ^ 63")
    case True
    obtain res s' where c: "Commit n s = (res, s')"
      by (cases "Commit n s")
    from ring_inv_Commit [OF inv True c] Commit_state [OF c] c True show ?thesis
      by (auto simp: Commit_step_def)
  next
    case False
    with inv show ?thesis
      by (simp add: Commit_step_def)
  qed
qed

lemma consumer_side_Close: "consumer_side (\<lambda>s. snd (Close s))"
  by (simp add: consumer_side_def Close_def)

lemma producer_side_Close: "producer_side (\<lambda>s. snd (Close s))"
  by (simp add: producer_side_def Close_def)

lemma Write_frame:
  assumes "Write p [] s = Some (Return (res, s'))"
  shows "cseq s' = cseq s \<and> size_lf s' = size_lf s"
  using assms
  by (auto simp: Write_def waitForWriteSpace_def Let_def
      split: option.splits prod.splits if_splits outcome.splits)

lemma producer_side_Write: "producer_side (Write_step p)"
  unfolding producer_side_def
proof (intro allI impI)
  fix s
  assume inv: "ring_inv s"
  show "ring_inv (Write_step p s) \<and> cseq (Write_step p s) = cseq s \<and>
    size_lf (Write_step p s) = size_lf s"
  proof (cases "get (pseq s) + int (length p) < 2 ^ 63")
    case False
    with inv show ?thesis
      by (simp add: Write_step_def)
  next
    case below: True
    show ?thesis
    proof (cases "Write p [] s")
      case None
      with inv show ?thesis by (simp add: Write_step_def)
    next
      case (Some out)
      show ?thesis
      proof (cases out)
        case Panic
        with Some inv show ?thesis by (simp add: Write_step_def)
      next
        case (Return x)
        obtain res s' where x: "x = (res, s')"
          by (cases x)
        with Some Return have w: "Write p [] s = Some (Return (res, s'))"
          by simp
        have "ring_inv s'"
          by (rule ring_inv_Write [OF inv _ below w]) simp
        with Write_frame [OF w] w below show ?thesis
          by (simp add: Write_step_def)
      qed
    qed
  qed
qed

lemma Read_frame:
  assumes inv: "ring_inv s" and room: "get (cseq s) + int (length p) < 2 ^ 63"
    and rd: "Read p [] s = Some (Return (res, p', s'))"
  shows "pseq s' = pseq s \<and> size_lf s' = size_lf s"
proof (cases "get (cseq s) < get (pseq s)")
  case True
  from inv have "well_formed s" "0 \<le> get (cseq s)" "get (pseq s) < 2 ^ 63"
    by (simp_all add: ring_inv_def)
  from Read_available [OF this(1) True this(2,3) room, of "[]"] rd show ?thesis
    by auto
next
  case False
  from inv have "0 \<le> get (cseq s)"
    by (simp add: ring_inv_def)
  with room have "wrap64 (get (cseq s) + int (length p)) = get (cseq s) + int (length p)"
    by (simp add: wrap64_nonneg)
  with False rd show ?thesis
    by (subst (asm) Read.simps) (auto simp: Let_def split: if_splits)
qed

lemma consumer_side_Read: "consumer_side (Read_step p)"
  unfolding consumer_side_def
proof (intro allI impI)
  fix s
  assume inv: "ring_inv s"
  show "ring_inv (Read_step p s) \<and> pseq (Read_step p s) = pseq s \<and>
    size_lf (Read_step p s) = size_lf s"
  proof (cases "get (cseq s) + int (length p) < 2 ^ 63")
    case False
    with inv show ?thesis
      by (simp add: Read_step_def)
  next
    case room: True
    show ?thesis
    proof (cases "Read p [] s")
      case None
      with inv show ?thesis by (simp add: Read_step_def)
    next
      case (Some out)
      show ?thesis
      proof (cases out)
        case Panic
        with Some inv show ?thesis by (simp add: Read_step_def)
      next
        case (Return x)
        obtain res p' s' where x: "x = (res, p', s')"
          by (cases x)
        with Some Return have r: "Read p [] s = Some (Return (res, p', s'))"
          by simp
        have "ring_inv s'"
          by (rule ring_inv_Read [OF inv _ room r]) simp
        with Read_frame [OF inv room r] r room show ?thesis
          by (simp add: Read_step_def)
      qed
    qed
  qed
qed

lemma consumer_side_Peek: "consumer_side (Peek_step n)"
  unfolding consumer_side_def
proof (intro allI impI)
  fix s
  assume inv: "ring_inv s"
  show "ring_inv (Peek_step n s) \<and> pseq (Peek_step n s) = pseq s \<and>
    size_lf (Peek_step n s) = size_lf s"
  proof (cases "Peek n [] s")
    case None
    with inv show ?thesis by (simp add: Peek_step_def)
  next
    case (Some out)
    show ?thesis
    proof (cases out)
      case Panic
      with Some inv show ?thesis by (simp add: Peek_step_def)
    next
      case (Return x)
      obtain res s' where x: "x = (res, s')"
        by (cases x)
      with Some Return have r: "Peek n [] s = Some (Return (res, s'))"
        by simp
      from Peek_state [OF r] obtain t where "s' = s\<lparr>tmp := t\<rparr>"
        by auto
      with inv r show ?thesis
        by (simp add: Peek_step_def)
    qed
  qed
qed

lemma waitForWriteSpace_frame:
  assumes "waitForWriteSpace n [] s = Some (res, ys', s')"
  shows "cseq s' = cseq s \<and> size_lf s' = size_lf s \<and> ys' = []"
  using assms
  by (auto simp: waitForWriteSpace_def Let_def split: if_splits)

lemma ReadFrom_loop_frame:
  "ReadFrom_loop tot r [] s = Some (Return (res, s')) \<Longrightarrow>
   cseq s' = cseq s \<and> size_lf s' = size_lf s"
proof (induction r arbitrary: tot s)
  case Nil
  from Nil obtain w ys' s1 where w: "waitForWriteSpace defaultReadBlockSize [] s = Some (w, ys', s1)"
    by (subst (asm) ReadFrom_loop.simps) (auto split: option.splits)
  from Nil w have "s' = s1"
    by (subst (asm) ReadFrom_loop.simps)
       (auto simp: Let_def reader_Read_def split: option.splits prod.splits if_splits)
  with waitForWriteSpace_frame [OF w] show ?case
    by simp
next
  case (Cons x r)
  obtain d0 e0 where x: "x = (d0, e0)"
    by (cases x)
  from Cons.prems obtain start cnt err ys' s1
    where w: "waitForWriteSpace defaultReadBlockSize [] s = Some ((start, cnt, err), ys', s1)"
    by (subst (asm) ReadFrom_loop.simps) (auto split: option.splits)
  from waitForWriteSpace_frame [OF w]
  have s1: "cseq s1 = cseq s" "size_lf s1 = size_lf s" "ys' = []"
    by simp_all
  from Cons.prems w s1(3)
  have "s' = s1 \<or> (\<exists>b q. s' = s1\<lparr>buf := b, pseq := q\<rparr>) \<or>
    (\<exists>tot'. ReadFrom_loop tot' r [] s1 = Some (Return (res, s'))) \<or>
    (\<exists>tot' b q. ReadFrom_loop tot' r [] (s1\<lparr>buf := b, pseq := q\<rparr>) = Some (Return (res, s')))"
    by (subst (asm) ReadFrom_loop.simps)
       (auto simp: Let_def reader_Read_def x split: option.splits if_splits)
  then show ?case
    using s1(1,2) by (auto dest!: Cons.IH)
qed

lemma producer_side_ReadFrom: "producer_side (ReadFrom_step r)"
  unfolding producer_side_def
proof (intro allI impI)
  fix s
  assume inv: "ring_inv s"
  show "ring_inv (ReadFrom_step r s) \<and> cseq (ReadFrom_step r s) = cseq s \<and>
    size_lf (ReadFrom_step r s) = size_lf s"
  proof (cases "get (pseq s) + int (reader_bytes r) + defaultReadBlockSize < 2 ^ 63")
    case False
    with inv show ?thesis
      by (simp add: ReadFrom_step_def)
  next
    case below: True
    show ?thesis
    proof (cases "ReadFrom r [] s")
      case None
      with inv show ?thesis by (simp add: ReadFrom_step_def)
    next
      case (Some out)
      show ?thesis
      proof (cases out)
        case Panic
        with Some inv show ?thesis by (simp add: ReadFrom_step_def)
      next
        case (Return x)
        obtain res s' where x: "x = (res, s')"
          by (cases x)
        with Some Return have r: "ReadFrom r [] s = Some (Return (res, s'))"
          by simp
        have "ring_inv s'"
          by (rule ring_inv_ReadFrom [OF inv _ r below]) simp
        with ReadFrom_loop_frame [of 0 r s res s'] r below show ?thesis
          by (simp add: ReadFrom_def ReadFrom_step_def)
      qed
    qed
  qed
qed

text \<open>
  The fill of the tests: the constructor returns the fresh ring, and \<^verbatim>\<open>ReadFrom\<close> on a
  reader that gives 2048 bytes in two blocks returns \<open>(2048, io.EOF)\<close> and leaves the
  filled ring. A \<^verbatim>\<open>Write\<close> of 3072 bytes then waits until the consumer has committed
  1024 bytes, and fills the ring up.
\<close>

lemma New_4096: "NewLockFreeBuffer roundUp maxAlloc 0 4096 = Return (Inr fresh_ring)"
proof -
  have "PowerOfTwo64 4096"
    unfolding PowerOfTwo64_iff by (rule exI [of _ 12]) simp
  then show ?thesis
    by (simp add: NewLockFreeBuffer_ok fresh_ring_def filled_ring_def maxAlloc_def wrap32_def)
qed

lemma ReadFrom_fill:
  "ReadFrom [(replicate 1024 97, None), (replicate 1024 97, None)] [] fresh_ring =
     Some (Return ((2048, Some EOF), filled_ring))"
  unfolding ReadFrom_def
  apply (subst ReadFrom_loop.simps)
  apply (simp add: waitForWriteSpace_def Let_def reader_Read_def in_bounds_def
      defaultReadBlockSize_def get_def set_seq_def fresh_ring_def filled_ring_def)
  apply (subst ReadFrom_loop.simps)
  apply (simp add: waitForWriteSpace_def Let_def reader_Read_def in_bounds_def
      defaultReadBlockSize_def get_def set_seq_def)
  apply (subst ReadFrom_loop.simps)
  apply (simp add: waitForWriteSpace_def Let_def reader_Read_def in_bounds_def
      defaultReadBlockSize_def get_def set_seq_def)
  apply (simp flip: replicate_add)
  done

lemma Write_fill:
  "Write (replicate 3072 98) [Commit_step 1024] filled_ring =
     Some (Return ((3072, None), full_ring))"
proof -
  have w: "waitForWriteSpace 3072 [Commit_step 1024] filled_ring =
    Some ((2048, 3072, None), [],
      filled_ring\<lparr>pwait := 1, cseq := \<lparr>cursor = 1024, gate = 0\<rparr>,
        pseq := \<lparr>cursor = 2048, gate = 1024\<rparr>\<rparr>)"
    by (simp add: waitForWriteSpace_def Let_def Commit_step_def Commit_def filled_ring_def
        get_def set_seq_def wrap64_def)
  have rc: "ringCopy (replicate 2048 97 @ replicate 2048 0) (replicate 3072 98) 2048 =
    Some (Return (replicate 1024 98 @ replicate 1024 97 @ replicate 2048 98, 3072))"
    by (subst ringCopy_explicit) simp_all
  show ?thesis
    by (simp add: Write_def w) (simp add: filled_ring_def full_ring_def rc set_seq_def)
qed

text \<open>
  The filled ring and the full ring are reachable; in the full ring \<open>pseq - cseq\<close> is
  the size itself.
\<close>

theorem sequence_invariant_witness:
  "reachable filled_ring \<and> reachable full_ring \<and>
   0 \<le> get (pseq filled_ring) - get (cseq filled_ring) \<and>
   get (pseq filled_ring) - get (cseq filled_ring) \<le> size_lf filled_ring \<and>
   0 \<le> get (pseq full_ring) - get (cseq full_ring) \<and>
   get (pseq full_ring) - get (cseq full_ring) \<le> size_lf full_ring"
proof -
  have fresh: "reachable fresh_ring"
    using New_4096 by (rule reachable.after_New)
  then have filled: "reachable filled_ring"
    by (rule reachable.after_ReadFrom [OF _ _ _ ReadFrom_fill])
      (simp_all add: reader_bytes_def fresh_ring_def filled_ring_def get_def
        defaultReadBlockSize_def)
  then have full: "reachable full_ring"
    by (rule reachable.after_Write [OF _ _ _ Write_fill])
      (simp_all add: consumer_side_Commit filled_ring_def get_def)
  from filled full sequence_invariant [OF filled] sequence_invariant [OF full]
  show ?thesis
    by blast
qed

subsection \<open>The ring at the end of the range of an \<^verbatim>\<open>int64\<close>\<close>

text \<open>
  Rounds of a \<^verbatim>\<open>Write\<close> of 4096 bytes and a \<^verbatim>\<open>Commit(4096)\<close> take the ring of the
  tests, with no sum reaching \<open>2^63\<close>, to the state in which \<open>pseq\<close> is \<open>2^63 - 1\<close>.
\<close>

lemma well_formed_round_ring: "well_formed (round_ring j)"
proof -
  have "PowerOfTwo64 4096"
    unfolding PowerOfTwo64_iff by (rule exI [of _ 12]) simp
  then show ?thesis
    by (simp add: well_formed_def round_ring_def fresh_ring_def filled_ring_def)
qed

lemma round_ring_index: "(4096 * j) AND 4095 = (0::int)"
  using well_formed_index [OF well_formed_round_ring, of "4096 * j" j]
  by (simp add: round_ring_def fresh_ring_def filled_ring_def)

lemma Write_round_ring:
  assumes "1 \<le> j" and "0 < k" and "k \<le> 4096"
  shows "Write (replicate k 0) [] (round_ring j) =
    Some (Return ((int k, None),
      (round_ring j)\<lparr>pwait := j, pseq := \<lparr>cursor = 4096 * j + int k, gate = 4096 * j\<rparr>\<rparr>))"
proof -
  have w: "waitForWriteSpace (int k) [] (round_ring j) =
    Some ((4096 * j, int k, None), [],
      (round_ring j)\<lparr>pwait := j, pseq := \<lparr>cursor = 4096 * j, gate = 4096 * j\<rparr>\<rparr>)"
    using assms
    by (simp add: waitForWriteSpace_def Let_def round_ring_def fresh_ring_def filled_ring_def
        get_def)
  have rc: "ringCopy (replicate 4096 0) (replicate k 0) 0 =
    Some (Return (replicate 4096 0, int k))"
    using assms by (subst ringCopy_explicit) (simp_all flip: replicate_add)
  show ?thesis
    by (simp add: Write_def w)
      (simp add: round_ring_def fresh_ring_def filled_ring_def round_ring_index rc set_seq_def)
qed

lemma Commit_round_ring:
  assumes "1 \<le> j" and "4096 * (j + 1) < 2 ^ 63"
  shows "Commit 4096
      ((round_ring j)\<lparr>pwait := j, pseq := \<lparr>cursor = 4096 * j + 4096, gate = 4096 * j\<rparr>\<rparr>) =
    ((4096, None), round_ring (j + 1))"
proof -
  from assms have "wrap64 (4096 * j + 4096) = 4096 * j + 4096"
    by (simp add: wrap64_nonneg)
  then show ?thesis
    by (simp add: Commit_def Let_def round_ring_def fresh_ring_def filled_ring_def get_def
        set_seq_def algebra_simps)
qed

lemma reachable_round_ring_1: "reachable (round_ring 1)"
proof -
  have fresh: "reachable fresh_ring"
    using New_4096 by (rule reachable.after_New)
  have rc: "ringCopy (replicate 4096 0) (replicate 4096 0) 0 =
    Some (Return (replicate 4096 0, 4096))"
    by (subst ringCopy_explicit) simp_all
  have "Write (replicate 4096 0) [] fresh_ring =
    Some (Return ((4096, None), fresh_ring\<lparr>pseq := \<lparr>cursor = 4096, gate = 0\<rparr>\<rparr>))"
    by (simp add: Write_def waitForWriteSpace_def Let_def fresh_ring_def filled_ring_def get_def
        rc set_seq_def)
  from reachable.after_Write [OF fresh _ _ this]
  have written: "reachable (fresh_ring\<lparr>pseq := \<lparr>cursor = 4096, gate = 0\<rparr>\<rparr>)"
    by (simp add: fresh_ring_def filled_ring_def get_def)
  have "Commit 4096 (fresh_ring\<lparr>pseq := \<lparr>cursor = 4096, gate = 0\<rparr>\<rparr>) =
    ((4096, None), round_ring 1)"
    by (simp add: Commit_def Let_def round_ring_def fresh_ring_def filled_ring_def get_def
        set_seq_def wrap64_def)
  from reachable.after_Commit [OF written _ this] show ?thesis
    by (simp add: fresh_ring_def filled_ring_def get_def)
qed

lemma reachable_round_ring:
  assumes "1 \<le> j" and "j < 2 ^ 51"
  shows "reachable (round_ring j)"
  using assms
proof (induction j rule: int_ge_induct)
  case base
  show ?case by (rule reachable_round_ring_1)
next
  case (step i)
  then have i: "1 \<le> i" "i < 2 ^ 51" "4096 * (i + 1) < 2 ^ 63" and r: "reachable (round_ring i)"
    by simp_all
  from Write_round_ring [OF i(1), of 4096]
  have "Write (replicate 4096 0) [] (round_ring i) =
    Some (Return ((4096, None),
      (round_ring i)\<lparr>pwait := i, pseq := \<lparr>cursor = 4096 * i + 4096, gate = 4096 * i\<rparr>\<rparr>))"
    by simp
  from reachable.after_Write [OF r _ _ this] i(3)
  have "reachable ((round_ring i)\<lparr>pwait := i, pseq := \<lparr>cursor = 4096 * i + 4096, gate = 4096 * i\<rparr>\<rparr>)"
    by (simp add: round_ring_def fresh_ring_def filled_ring_def get_def)
  from reachable.after_Commit [OF this _ Commit_round_ring [OF i(1,3)]] i(3) show ?case
    by (simp add: round_ring_def fresh_ring_def filled_ring_def get_def)
qed

lemma reachable_last_ring: "reachable last_ring"
proof -
  have r: "reachable (round_ring (2 ^ 51 - 1))"
    by (rule reachable_round_ring) simp_all
  from Write_round_ring [of "2 ^ 51 - 1" 4095]
  have "Write (replicate 4095 0) [] (round_ring (2 ^ 51 - 1)) = Some (Return ((4095, None), last_ring))"
    by (simp add: round_ring_def last_ring_def)
  from reachable.after_Write [OF r _ _ this] show ?thesis
    by (simp add: round_ring_def fresh_ring_def filled_ring_def get_def)
qed

lemma reachable_brim_ring: "reachable brim_ring"
proof -
  have "Commit 4093 last_ring = ((4093, None), brim_ring)"
    by (simp add: Commit_def Let_def brim_ring_def last_ring_def fresh_ring_def filled_ring_def
        get_def set_seq_def wrap64_def)
  from reachable.after_Commit [OF reachable_last_ring _ this] show ?thesis
    by (simp add: last_ring_def fresh_ring_def filled_ring_def get_def)
qed

lemma reachable_tail_ring: "reachable tail_ring"
proof -
  define s where "s = last_ring\<lparr>pseq := \<lparr>cursor = 2 ^ 63 - 3, gate = 2 ^ 63 - 4096\<rparr>\<rparr>"
  have r: "reachable (round_ring (2 ^ 51 - 1))"
    by (rule reachable_round_ring) simp_all
  from Write_round_ring [of "2 ^ 51 - 1" 4093]
  have "Write (replicate 4093 0) [] (round_ring (2 ^ 51 - 1)) = Some (Return ((4093, None), s))"
    by (simp add: round_ring_def last_ring_def s_def)
  from reachable.after_Write [OF r _ _ this] have written: "reachable s"
    by (simp add: round_ring_def fresh_ring_def filled_ring_def get_def)
  have "Commit 4090 s = ((4090, None), tail_ring)"
    by (simp add: Commit_def Let_def s_def tail_ring_def last_ring_def fresh_ring_def
        filled_ring_def get_def set_seq_def wrap64_def)
  from reachable.after_Commit [OF written _ this] show ?thesis
    by (simp add: s_def last_ring_def fresh_ring_def filled_ring_def get_def)
qed

text \<open>
  C1 as stated fails once a sequence overflows. The ring that holds 4095 bytes with
  \<open>pseq = 2^63 - 1\<close> is reachable with every sum below \<open>2^63\<close>. On it \<^verbatim>\<open>Commit(4096)\<close>
  computes \<open>cseq + 4096\<close> as \<open>- 2^63\<close>, returns \<open>(4096, nil)\<close> and stores it in
  \<open>cseq\<close>: after this completed operation \<^verbatim>\<open>Len\<close> is \<open>-1\<close>, and \<open>pseq - cseq\<close> is
  above the size.
\<close>

theorem sequence_invariant_breaks:
  "reachable last_ring \<and>
   get (pseq last_ring) - get (cseq last_ring) = 4095 \<and>
   Commit 4096 last_ring = ((4096, None), last_ring\<lparr>cseq := \<lparr>cursor = - (2 ^ 63), gate = 0\<rparr>\<rparr>) \<and>
   Len (last_ring\<lparr>cseq := \<lparr>cursor = - (2 ^ 63), gate = 0\<rparr>\<rparr>) = - 1 \<and>
   size_lf (last_ring\<lparr>cseq := \<lparr>cursor = - (2 ^ 63), gate = 0\<rparr>\<rparr>) <
     get (pseq (last_ring\<lparr>cseq := \<lparr>cursor = - (2 ^ 63), gate = 0\<rparr>\<rparr>)) -
     get (cseq (last_ring\<lparr>cseq := \<lparr>cursor = - (2 ^ 63), gate = 0\<rparr>\<rparr>))"
  using reachable_last_ring
  by (simp add: Commit_def Len_def Let_def last_ring_def fresh_ring_def filled_ring_def get_def
      set_seq_def wrap64_def)


section \<open>Write\<close>

lemma waitForWriteSpace_error:
  assumes "waitForWriteSpace n ys this = Some ((start, cnt, Some e), ys', this')"
  shows "e = EOF \<and> done_lf this' = 1 \<and> start = 0 \<and> cnt = 0"
proof -
  from assms obtain wrap s c where "producerWait wrap ys s = Some (Some e, c, ys', this')"
    and "start = 0" "cnt = 0"
    by (auto simp: waitForWriteSpace_def Let_def split: if_splits option.splits prod.splits)
  with producerWait_error [OF this(1)] show ?thesis
    by simp
qed

text \<open>
  The only error \<^verbatim>\<open>Write\<close> returns is \<^verbatim>\<open>io.EOF\<close>. A \<^verbatim>\<open>Write\<close> of more bytes than
  the size cannot succeed: the consumer never passes \<open>pseq\<close>, so \<open>cseq\<close> never reaches
  \<open>wrap = pseq + |p| - size\<close>, and the call returns only when it sees \<^verbatim>\<open>done\<close> set.
\<close>

lemma Write_errors:
  assumes "Write p ys this = Some (Return ((cnt, Some e), this'))"
  shows "e = EOF"
proof -
  from assms obtain start c ys' where "waitForWriteSpace (int (length p)) ys this = Some ((start, c, Some e), ys', this')"
    by (auto simp: Write_def split: option.splits prod.splits outcome.splits)
  from waitForWriteSpace_error [OF this] show ?thesis
    by simp
qed

lemma Write_oversize:
  assumes inv: "ring_inv this" and ys: "\<forall>y \<in> set ys. consumer_side y"
    and big: "int (length p) > size_lf this"
    and wr: "Write p ys this = Some out"
  shows "\<exists>this'. out = Return ((0, Some EOF), this') \<and> done_lf this' = 1 \<and>
    get (pseq this') = get (pseq this)"
proof -
  from wr obtain start cnt err ys' s1
    where w: "waitForWriteSpace (int (length p)) ys this = Some ((start, cnt, err), ys', s1)"
    by (auto simp: Write_def split: option.splits)
  from waitForWriteSpace_inv [OF inv ys w]
  have s1: "ring_inv s1" "get (pseq s1) = get (pseq this)" "size_lf s1 = size_lf this"
    and ok: "err = None \<longrightarrow> get (pseq this) + int (length p) - size_lf this \<le> get (cseq s1)"
    by simp_all
  from s1 have "get (cseq s1) \<le> get (pseq this)"
    by (simp add: ring_inv_def)
  with ok big obtain e where e: "err = Some e"
    by (cases err) auto
  from w e waitForWriteSpace_error [of "int (length p)" ys this start cnt e ys' s1]
  have "e = EOF" "done_lf s1 = 1"
    by simp_all
  then show ?thesis
    using wr w e s1 by (auto simp: Write_def)
qed

text \<open>
  C3: the claim is that \<^verbatim>\<open>Write(p)\<close> with \<open>|p| > size\<close> fails with \<^verbatim>\<open>ErrBufferFull\<close>.
  \<^verbatim>\<open>Write\<close> and \<^verbatim>\<open>waitForWriteSpace\<close> do not compare \<open>|p|\<close> with the size, as
  \<^verbatim>\<open>Peek\<close> and \<^verbatim>\<open>Commit\<close> do with their argument: a \<^verbatim>\<open>Write\<close> of 4097 bytes to the
  ring of 4096 bytes does not return while the other side is idle, and returns
  \<open>(0, io.EOF)\<close> when the buffer is closed during the wait. (A slice has no negative
  length, so the other half of the claim has no instance.)
\<close>

theorem Write_oversize_never_buffer_full:
  "Write (replicate 4097 0) [] filled_ring = None \<and>
   Write (replicate 4097 0) [\<lambda>s. snd (Close s)] filled_ring =
     Some (Return ((0, Some EOF), filled_ring\<lparr>pwait := 1, done_lf := 1\<rparr>))"
  by (simp add: Write_def waitForWriteSpace_def Let_def Close_def filled_ring_def get_def)

section \<open>ReadFrom\<close>

text \<open>
  C7: the claim is that \<^verbatim>\<open>ReadFrom\<close> returns an error together with the count of the
  bytes forwarded so far, also when the error is the end of stream seen while waiting
  for write space. On that path the code returns \<^verbatim>\<open>0, err\<close> where every other return
  has \<^verbatim>\<open>total, err\<close>: a reader holds 5120 bytes for a fresh ring of 4096 bytes, the
  consumer is idle, the buffer is closed while \<^verbatim>\<open>ReadFrom\<close> waits for space for the
  fifth block, and the call returns \<open>(0, io.EOF)\<close> with 4096 bytes in the ring.
\<close>

theorem ReadFrom_drops_count:
  "\<exists>this'. ReadFrom [(replicate 1024 97, None), (replicate 1024 97, None), (replicate 1024 97, None),
        (replicate 1024 97, None), (replicate 1024 97, None)] [\<lambda>s. snd (Close s)] fresh_ring =
      Some (Return ((0, Some EOF), this')) \<and>
    Len this' = 4096"
  unfolding ReadFrom_def
  apply (subst ReadFrom_loop.simps)
  apply (simp add: waitForWriteSpace_def Let_def reader_Read_def in_bounds_def
      defaultReadBlockSize_def get_def set_seq_def fresh_ring_def filled_ring_def)
  apply (subst ReadFrom_loop.simps)
  apply (simp add: waitForWriteSpace_def Let_def reader_Read_def in_bounds_def
      defaultReadBlockSize_def get_def set_seq_def)
  apply (subst ReadFrom_loop.simps)
  apply (simp add: waitForWriteSpace_def Let_def reader_Read_def in_bounds_def
      defaultReadBlockSize_def get_def set_seq_def)
  apply (subst ReadFrom_loop.simps)
  apply (simp add: waitForWriteSpace_def Let_def reader_Read_def in_bounds_def
      defaultReadBlockSize_def get_def set_seq_def)
  apply (subst ReadFrom_loop.simps)
  apply (simp add: waitForWriteSpace_def Let_def reader_Read_def in_bounds_def
      defaultReadBlockSize_def get_def set_seq_def Close_def Len_def wrap64_def)
  done

end
